theory Spec2Isabelle
  imports Main "HOL-Library.Word"
begin

section \<open>Data model of \<^verbatim>\<open>penrose-turing.c\<close>\<close>

text \<open>
  \<^verbatim>\<open>enum token { ZERO, ONE, RIGHT, LEFT, STOP }\<close>: a run of k ones closed by a zero
  is the token with value k.
\<close>

datatype token = ZERO | ONE | RIGHT | LEFT | STOP

fun token_val :: "token \<Rightarrow> nat" where
  "token_val ZERO = 0"
| "token_val ONE = 1"
| "token_val RIGHT = 2"
| "token_val LEFT = 3"
| "token_val STOP = 4"

text \<open>The cast \<^verbatim>\<open>(enum token) (token_len - 1)\<close>; the tokenizer only reaches it with
  \<^verbatim>\<open>token_len\<close> between 1 and 5.\<close>

definition token_of_nat :: "nat \<Rightarrow> token" where
  "token_of_nat k =
     (if k = 0 then ZERO else if k = 1 then ONE else if k = 2 then RIGHT
      else if k = 3 then LEFT else STOP)"

text \<open>
  \<^verbatim>\<open>struct action\<close> and \<^verbatim>\<open>struct state\<close>. The two \<^verbatim>\<open>short\<close> fields are integers; the
  pointer \<^verbatim>\<open>next_state\<close> always points into the array of states and is kept as the index
  of the state it points to.
\<close>

record action =
  value_to_write :: int
  direction_to_move :: int
  next_state :: nat

record state =
  number :: nat
  action0 :: action
  action1 :: action

text \<open>Every \<^verbatim>\<open>fprintf(stderr, ...); exit(1)\<close> of \<^verbatim>\<open>parse_tm\<close> is one error value, carrying
  the numbers the message prints.\<close>

datatype decode_error =
    InvalidCharacter nat
  | InvalidRunLength nat
  | IncompleteStateDefinition
  | UndefinedStateReference nat nat

section \<open>The codec: \<^verbatim>\<open>parse_tm\<close>\<close>

text \<open>
  A C string holds no NUL before its end, so the argument \<^verbatim>\<open>tm\<close> is the list of its
  characters before the terminator. First loop: count the characters and reject the
  first one that is neither \<^verbatim>\<open>'0'\<close> nor \<^verbatim>\<open>'1'\<close>, reporting the count so far.
\<close>

fun check_chars :: "string \<Rightarrow> nat \<Rightarrow> decode_error + nat" where
  "check_chars [] tm_len = Inr tm_len"
| "check_chars (c # s) tm_len =
     (if c \<noteq> CHR ''0'' \<and> c \<noteq> CHR ''1'' then Inl (InvalidCharacter tm_len)
      else check_chars s (tm_len + 1))"

text \<open>The buffer \<^verbatim>\<open>tm_tmp\<close>: the specification between an implicit \<^verbatim>\<open>110\<close> on each side.\<close>

definition tm_tmp :: "string \<Rightarrow> string" where
  "tm_tmp tm = ''110'' @ tm @ ''110''"

text \<open>
  The tokenizer loop over \<^verbatim>\<open>tm_tmp\<close>, from index \<open>i\<close> with the counter \<^verbatim>\<open>token_len\<close>; the
  tokens written so far are \<open>tokens\<close>. The index reported on failure is the loop index
  \<open>i\<close>, an index into \<^verbatim>\<open>tm_tmp\<close>.
\<close>

fun tokenize :: "string \<Rightarrow> nat \<Rightarrow> nat \<Rightarrow> token list \<Rightarrow> decode_error + token list" where
  "tokenize [] i token_len tokens = Inr tokens"
| "tokenize (c # cs) i token_len tokens =
     (if token_len + 1 > 5 then Inl (InvalidRunLength i)
      else if c = CHR ''0'' then tokenize cs (i + 1) 0 (tokens @ [token_of_nat (token_len + 1 - 1)])
      else tokenize cs (i + 1) (token_len + 1) tokens)"

text \<open>Second loop over the tokens: count those that are \<^verbatim>\<open>RIGHT\<close>, \<^verbatim>\<open>LEFT\<close> or \<^verbatim>\<open>STOP\<close>.\<close>

fun count_actions :: "token list \<Rightarrow> nat \<Rightarrow> nat" where
  "count_actions [] actions_len = actions_len"
| "count_actions (t # ts) actions_len =
     (if token_val t \<ge> token_val RIGHT then count_actions ts (actions_len + 1)
      else count_actions ts actions_len)"

text \<open>
  The inner loop that reads the index of the next state: \<^verbatim>\<open>t\<close> walks from
  \<^verbatim>\<open>tokens + i - 2\<close> down to \<^verbatim>\<open>token_start\<close> (the list argument holds these tokens in
  the order the loop meets them) and adds \<^verbatim>\<open>((unsigned int) (*t)) * 1u << j++\<close> to the
  \<^verbatim>\<open>size_t\<close> sum. The product and the shift are computed in \<^verbatim>\<open>unsigned int\<close>, 32 bits
  wide; C leaves a shift by 32 or more undefined, and the model takes the bits shifted
  out of the 32-bit value as lost. Each summand is below \<open>2 ^ 32\<close> and at most one is
  non-zero per bit, so the 64-bit sum never wraps.
\<close>

fun read_next_state_ix :: "token list \<Rightarrow> nat \<Rightarrow> nat \<Rightarrow> nat" where
  "read_next_state_ix [] j next_state_ix = next_state_ix"
| "read_next_state_ix (t # ts) j next_state_ix =
     read_next_state_ix ts (j + 1)
       (next_state_ix + unat (push_bit j (word_of_nat (token_val t) * 1 :: 32 word)))"

text \<open>\<^verbatim>\<open>*states_len - 1\<close> in \<^verbatim>\<open>size_t\<close>: it wraps to the largest value when the length is 0.\<close>

definition size_pred :: "nat \<Rightarrow> nat" where
  "size_pred n = (if n = 0 then 2 ^ 64 - 1 else n - 1)"

text \<open>\<^verbatim>\<open>calloc\<close> hands out zeroed memory: every state starts with all fields 0.\<close>

definition zero_action :: action where
  "zero_action = \<lparr>value_to_write = 0, direction_to_move = 0, next_state = 0\<rparr>"

definition zero_state :: state where
  "zero_state = \<lparr>number = 0, action0 = zero_action, action1 = zero_action\<rparr>"

text \<open>The direction stored for the token that closes an action.\<close>

definition direction_of :: "token \<Rightarrow> int" where
  "direction_of token = (if token = RIGHT then 1 else if token = LEFT then - 1 else 0)"

text \<open>
  The three branches that fill \<^verbatim>\<open>value_to_write\<close> and \<^verbatim>\<open>next_state\<close> of the action closed
  by \<^verbatim>\<open>tokens[i]\<close>, for the state numbered \<open>state_number\<close>.
\<close>

definition decode_action ::
  "token list \<Rightarrow> nat \<Rightarrow> nat \<Rightarrow> nat \<Rightarrow> nat \<Rightarrow> decode_error + action" where
  "decode_action tokens states_len state_number token_start i =
     (let direction = direction_of (tokens ! i) in
      if token_start = i then
        Inr \<lparr>value_to_write = 0, direction_to_move = direction, next_state = 0\<rparr>
      else if token_start = i - 1 then
        Inr \<lparr>value_to_write = int (token_val (tokens ! (i - 1))),
             direction_to_move = direction, next_state = 0\<rparr>
      else
        (let next_state_ix =
               read_next_state_ix (rev (take (i - 1 - token_start) (drop token_start tokens))) 0 0
         in if next_state_ix > size_pred states_len
            then Inl (UndefinedStateReference state_number next_state_ix)
            else Inr \<lparr>value_to_write = int (token_val (tokens ! (i - 1))),
                      direction_to_move = direction, next_state = next_state_ix\<rparr>))"

text \<open>Storing the action in \<^verbatim>\<open>action0\<close> or \<^verbatim>\<open>action1\<close> of \<^verbatim>\<open>states[state_ix]\<close>, after
  \<^verbatim>\<open>state->number = state_ix\<close>.\<close>

definition store_action :: "state list \<Rightarrow> nat \<Rightarrow> nat \<Rightarrow> action \<Rightarrow> state list" where
  "store_action states action_ix state_ix a =
     (let st = (states ! state_ix)\<lparr>number := state_ix\<rparr>
      in states[state_ix :=
            (if action_ix mod 2 = 0 then st\<lparr>action0 := a\<rparr> else st\<lparr>action1 := a\<rparr>)])"

text \<open>The loop over the tokens that creates the states, from index \<open>i\<close>, with the
  variables \<^verbatim>\<open>action_ix\<close>, \<^verbatim>\<open>state_ix\<close> and \<^verbatim>\<open>token_start\<close> (the latter as an index into
  \<^verbatim>\<open>tokens\<close>).\<close>

function create_states ::
  "token list \<Rightarrow> nat \<Rightarrow> nat \<Rightarrow> state list \<Rightarrow> nat \<Rightarrow> nat \<Rightarrow> nat \<Rightarrow> decode_error + state list" where
  "create_states tokens states_len i states action_ix state_ix token_start =
     (if i < length tokens then
        (if token_val (tokens ! i) < token_val RIGHT
         then create_states tokens states_len (i + 1) states action_ix state_ix token_start
         else
           (case decode_action tokens states_len state_ix token_start i of
              Inl e \<Rightarrow> Inl e
            | Inr a \<Rightarrow>
                create_states tokens states_len (i + 1)
                  (store_action states action_ix state_ix a)
                  (action_ix + 1)
                  (if (action_ix + 1) mod 2 = 0 then state_ix + 1 else state_ix)
                  (i + 1)))
      else Inr states)"
  by pat_completeness auto
termination
  by (relation "measure (\<lambda>(tokens, states_len, i, rest). length tokens - i)") auto

declare create_states.simps [simp del]

text \<open>\<^verbatim>\<open>parse_tm\<close>: the checks and loops in the order of the source. The result is the
  array of states; its length is \<^verbatim>\<open>*states_len\<close>.\<close>

definition parse_tm :: "string \<Rightarrow> decode_error + state list" where
  "parse_tm tm =
     (case check_chars tm 0 of
        Inl e \<Rightarrow> Inl e
      | Inr tm_len \<Rightarrow>
          (case tokenize (tm_tmp tm) 0 0 [] of
             Inl e \<Rightarrow> Inl e
           | Inr tokens \<Rightarrow>
               (let actions_len = count_actions tokens 0 in
                if actions_len mod 2 \<noteq> 0 then Inl IncompleteStateDefinition
                else
                  (let states_len = actions_len div 2 in
                   create_states tokens states_len 0
                     (replicate states_len zero_state) 0 0 0))))"

section \<open>The execution engine: \<^verbatim>\<open>run\<close>\<close>

text \<open>
  The failures of \<^verbatim>\<open>run\<close>: its three \<^verbatim>\<open>exit(1)\<close> messages, and \<open>OutOfBounds\<close> for a read
  or write outside the allocated buffer or array, which C leaves undefined.
\<close>

datatype run_error =
    InvalidTapeCharacter nat
  | StepLimitExceeded nat
  | TapeLimitExceeded nat
  | OutOfBounds

subsection \<open>The tape buffer\<close>

text \<open>
  The tape is a \<^verbatim>\<open>char\<close> buffer from \<^verbatim>\<open>calloc\<close>: the list of all its bytes, terminator
  included. Its cells hold \<^verbatim>\<open>'0'\<close>, \<^verbatim>\<open>'1'\<close> or \<^verbatim>\<open>' '\<close> (blank).
\<close>

definition NUL :: char where
  "NUL = CHR 0x00"

definition calloc :: "nat \<Rightarrow> string" where
  "calloc n = replicate n NUL"

definition peek :: "string \<Rightarrow> int \<Rightarrow> run_error + char" where
  "peek buf k = (if 0 \<le> k \<and> k < int (length buf) then Inr (buf ! nat k) else Inl OutOfBounds)"

definition poke :: "string \<Rightarrow> int \<Rightarrow> char \<Rightarrow> run_error + string" where
  "poke buf k c =
     (if 0 \<le> k \<and> k < int (length buf) then Inr (buf[nat k := c]) else Inl OutOfBounds)"

text \<open>A loop that assigns the characters \<open>xs\<close> to \<^verbatim>\<open>buf[off]\<close>, \<^verbatim>\<open>buf[off + 1]\<close>, ...\<close>

definition write_block :: "string \<Rightarrow> nat \<Rightarrow> string \<Rightarrow> run_error + string" where
  "write_block buf off xs =
     (if off + length xs \<le> length buf
      then Inr (take off buf @ xs @ drop (off + length xs) buf)
      else Inl OutOfBounds)"

text \<open>\<^verbatim>\<open>strcpy(buf + off, src)\<close>: the bytes of \<open>src\<close> up to and including its first NUL; a
  source buffer without a NUL is read past its end.\<close>

definition strcpy :: "string \<Rightarrow> nat \<Rightarrow> string \<Rightarrow> run_error + string" where
  "strcpy buf off src =
     (if NUL \<in> set src then write_block buf off (takeWhile (\<lambda>c. c \<noteq> NUL) src @ [NUL])
      else Inl OutOfBounds)"

subsection \<open>The variables of \<^verbatim>\<open>run\<close>\<close>

text \<open>
  \<^verbatim>\<open>curr_state\<close> is a pointer into \<^verbatim>\<open>states\<close>, kept as an index. \<^verbatim>\<open>step\<close> is an
  \<^verbatim>\<open>unsigned long long\<close>, and so is the parameter \<^verbatim>\<open>max_steps\<close>; the parameter
  \<^verbatim>\<open>max_tape_len\<close> is a \<^verbatim>\<open>size_t\<close>. The sizes and indices that \<^verbatim>\<open>run\<close> computes (\<^verbatim>\<open>size_t\<close>,
  \<^verbatim>\<open>ssize_t\<close>) count bytes of allocated memory; they are unbounded numbers here, and every
  allocation is taken to succeed.
\<close>

record machine =
  tape :: string
  tape_len :: nat
  tape_expansion_amt :: nat
  curr_state :: nat
  tape_ix :: int
  rel_tape_ix :: int
  min_rel_tape_ix :: int
  max_rel_tape_ix :: int
  step :: "64 word"

text \<open>The first loop of \<^verbatim>\<open>run\<close>: the tape must consist of \<^verbatim>\<open>'0'\<close> and \<^verbatim>\<open>'1'\<close> only.\<close>

fun check_tape :: "string \<Rightarrow> nat \<Rightarrow> run_error + nat" where
  "check_tape [] initial_tape_len = Inr initial_tape_len"
| "check_tape (c # s) initial_tape_len =
     (if c \<noteq> CHR ''0'' \<and> c \<noteq> CHR ''1'' then Inl (InvalidTapeCharacter initial_tape_len)
      else check_tape s (initial_tape_len + 1))"

text \<open>The state before the first execution: the buffer of \<^verbatim>\<open>initial_tape_len + 1\<close> bytes
  holds the initial tape and its terminator.\<close>

definition pass1_init :: "string \<Rightarrow> nat \<Rightarrow> machine" where
  "pass1_init initial_tape initial_tape_len =
     \<lparr>tape = initial_tape @ [NUL],
      tape_len = initial_tape_len,
      tape_expansion_amt = 1024,
      curr_state = 0,
      tape_ix = 0,
      rel_tape_ix = 0,
      min_rel_tape_ix = 0,
      max_rel_tape_ix = int initial_tape_len - 1,
      step = 0\<rparr>"

subsection \<open>One step of the machine\<close>

text \<open>\<^verbatim>\<open>curr_state->action0\<close> reads the state the pointer refers to.\<close>

definition fetch_state :: "state list \<Rightarrow> nat \<Rightarrow> run_error + state" where
  "fetch_state states k = (if k < length states then Inr (states ! k) else Inl OutOfBounds)"

text \<open>The action for the character under the head: \<^verbatim>\<open>action0\<close> for \<^verbatim>\<open>'0'\<close> and for a
  blank, \<^verbatim>\<open>action1\<close> for every other character.\<close>

definition select_action :: "state \<Rightarrow> char \<Rightarrow> action" where
  "select_action st c = (if c = CHR ''0'' \<or> c = CHR '' '' then action0 st else action1 st)"

text \<open>\<^verbatim>\<open>action.value_to_write == 0 ? '0' : '1'\<close>\<close>

definition bit_char :: "int \<Rightarrow> char" where
  "bit_char v = (if v = 0 then CHR ''0'' else CHR ''1'')"

text \<open>The two branches that expand the tape by \<^verbatim>\<open>tape_expansion_amt\<close> blanks in a fresh
  buffer.\<close>

definition expand_left :: "string \<Rightarrow> nat \<Rightarrow> nat \<Rightarrow> run_error + string" where
  "expand_left tp len amt =
     (case write_block (calloc (len + amt + 1)) 0 (replicate amt CHR '' '') of
        Inl e \<Rightarrow> Inl e
      | Inr tape_tmp \<Rightarrow> strcpy tape_tmp amt tp)"

definition expand_right :: "string \<Rightarrow> nat \<Rightarrow> nat \<Rightarrow> run_error + string" where
  "expand_right tp len amt =
     (case strcpy (calloc (len + amt + 1)) 0 tp of
        Inl e \<Rightarrow> Inl e
      | Inr tape_tmp \<Rightarrow>
          (case write_block tape_tmp len (replicate amt CHR '' '') of
             Inl e \<Rightarrow> Inl e
           | Inr tape_tmp2 \<Rightarrow> poke tape_tmp2 (int (len + amt)) NUL))"

text \<open>
  The body of the first \<^verbatim>\<open>while\<close> loop after its two limit checks. The result is the
  new state with a flag: \<open>True\<close> when the loop is left by \<^verbatim>\<open>break\<close>.
\<close>

definition pass1_step :: "state list \<Rightarrow> machine \<Rightarrow> run_error + bool \<times> machine" where
  "pass1_step states s =
     (case peek (tape s) (tape_ix s) of
        Inl e \<Rightarrow> Inl e
      | Inr c \<Rightarrow>
     (case fetch_state states (curr_state s) of
        Inl e \<Rightarrow> Inl e
      | Inr st \<Rightarrow>
     (let a = select_action st c in
      case poke (tape s) (tape_ix s) (bit_char (value_to_write a)) of
        Inl e \<Rightarrow> Inl e
      | Inr tape1 \<Rightarrow>
          if direction_to_move a = 0 then Inr (True, s\<lparr>tape := tape1\<rparr>)
          else
            (let tape_ix1 = tape_ix s + direction_to_move a;
                 rel1 = rel_tape_ix s + direction_to_move a;
                 min1 = (if rel1 < min_rel_tape_ix s then rel1 else min_rel_tape_ix s);
                 max1 = (if rel1 > max_rel_tape_ix s then rel1 else max_rel_tape_ix s);
                 s1 = s\<lparr>tape := tape1, tape_ix := tape_ix1, rel_tape_ix := rel1,
                        min_rel_tape_ix := min1, max_rel_tape_ix := max1\<rparr>
             in if tape_ix1 < 0 \<or> tape_ix1 = int (tape_len s) then
                  (case (if tape_ix1 < 0
                         then expand_left tape1 (tape_len s) (tape_expansion_amt s)
                         else expand_right tape1 (tape_len s) (tape_expansion_amt s)) of
                     Inl e \<Rightarrow> Inl e
                   | Inr tape_tmp \<Rightarrow>
                       Inr (False,
                            s1\<lparr>tape := tape_tmp,
                               tape_ix := (if tape_ix1 < 0
                                           then tape_ix1 + int (tape_expansion_amt s)
                                           else tape_ix1),
                               tape_len := tape_len s + tape_expansion_amt s,
                               tape_expansion_amt := tape_expansion_amt s * 2,
                               curr_state := next_state a\<rparr>))
                else Inr (False, s1\<lparr>curr_state := next_state a\<rparr>)))))"

lemma pass1_step_step: "pass1_step states s = Inr (h, s') \<Longrightarrow> step s' = step s"
  by (auto simp: pass1_step_def Let_def split: sum.splits if_splits)

text \<open>
  The first \<^verbatim>\<open>while (1)\<close> loop. It is left by \<^verbatim>\<open>break\<close> (the result is the state then) or
  by one of the two \<^verbatim>\<open>exit(1)\<close>. The counter \<^verbatim>\<open>step\<close> climbs to \<^verbatim>\<open>max_steps\<close>, which bounds
  the loop.
\<close>

function pass1_loop ::
  "state list \<Rightarrow> 64 word \<Rightarrow> 64 word \<Rightarrow> machine \<Rightarrow> run_error + machine" where
  "pass1_loop states max_tape_len max_steps s =
     (if step s = max_steps then Inl (StepLimitExceeded (unat max_steps))
      else
        (let s1 = s\<lparr>step := step s + 1\<rparr> in
         if tape_len s1 > unat max_tape_len then Inl (TapeLimitExceeded (unat max_tape_len))
         else
           (case pass1_step states s1 of
              Inl e \<Rightarrow> Inl e
            | Inr (halted, s2) \<Rightarrow>
                if halted then Inr s2 else pass1_loop states max_tape_len max_steps s2)))"
  by pat_completeness auto
termination
proof (relation "measure (\<lambda>(states, max_tape_len, max_steps, s). unat (max_steps - step s))")
  show "wf (measure (\<lambda>(states, max_tape_len, max_steps, s). unat (max_steps - step s)))"
    by simp
next
  fix states :: "state list" and max_tape_len :: "64 word" and max_steps :: "64 word"
    and s s1 :: machine and x2 :: "bool \<times> machine" and halted :: bool and s2 :: machine
  assume ne: "step s \<noteq> max_steps"
    and s1: "s1 = s\<lparr>step := step s + 1\<rparr>"
    and st: "pass1_step states s1 = Inr x2" "(halted, s2) = x2"
  have "step s2 = step s + 1"
    using pass1_step_step [of states s1 halted s2] st s1 by simp
  then have eq: "max_steps - step s2 = (max_steps - step s) - 1"
    by simp
  have "max_steps - step s \<noteq> 0"
    using ne by simp
  then have "unat ((max_steps - step s) - 1) < unat (max_steps - step s)"
    by (simp add: unat_minus_one unat_gt_0)
  then have "unat (max_steps - step s2) < unat (max_steps - step s)"
    by (simp only: eq)
  then show "((states, max_tape_len, max_steps, s2), (states, max_tape_len, max_steps, s))
      \<in> measure (\<lambda>(states, max_tape_len, max_steps, s). unat (max_steps - step s))"
    by simp
qed

declare pass1_loop.simps [simp del]

subsection \<open>Verbosity 0: the line printed after the first execution\<close>

text \<open>
  \<^verbatim>\<open>while (*s != ' ' && s >= tape) --s;\<close> from \<^verbatim>\<open>s = tape + k\<close>. At \<^verbatim>\<open>s = tape - 1\<close> the
  loop is left whatever byte is read there: either the byte is a blank or the second
  test fails.
\<close>

function scan_blank :: "string \<Rightarrow> int \<Rightarrow> int" where
  "scan_blank buf k =
     (if k < 0 then k
      else if buf ! nat k \<noteq> CHR '' '' then scan_blank buf (k - 1)
      else k)"
  by pat_completeness auto
termination
  by (relation "measure (\<lambda>(buf, k). nat (k + 1))") auto

declare scan_blank.simps [simp del]

text \<open>\<^verbatim>\<open>tape[tape_ix + 1] = '\0'\<close>, the scan to the left, and \<^verbatim>\<open>fputs(++s, stdout)\<close>, which
  prints the bytes from there to the first NUL.\<close>

definition output_line :: "machine \<Rightarrow> run_error + string" where
  "output_line s =
     (case poke (tape s) (tape_ix s + 1) NUL of
        Inl e \<Rightarrow> Inl e
      | Inr tape1 \<Rightarrow>
          Inr (takeWhile (\<lambda>c. c \<noteq> NUL)
                 (drop (nat (scan_blank tape1 (tape_ix s) + 1)) tape1)))"

subsection \<open>The second execution\<close>

text \<open>The conversion of an \<^verbatim>\<open>ssize_t\<close> value to \<^verbatim>\<open>size_t\<close>.\<close>

definition to_size_t :: "int \<Rightarrow> nat" where
  "to_size_t k = nat (k mod 2 ^ 64)"

text \<open>
  The tape of the second execution: \<^verbatim>\<open>final_tape_len\<close> blanks with the initial tape
  copied to \<^verbatim>\<open>tape_ix = -min_rel_tape_ix\<close>; \<^verbatim>\<open>step\<close> and \<^verbatim>\<open>curr_state\<close> start again.
\<close>

definition pass2_init :: "string \<Rightarrow> machine \<Rightarrow> run_error + machine" where
  "pass2_init initial_tape s =
     (let final_tape_len = to_size_t (max_rel_tape_ix s - min_rel_tape_ix s + 1);
          tape_ix2 = - min_rel_tape_ix s
      in case write_block (calloc (final_tape_len + 1)) 0 (replicate final_tape_len CHR '' '') of
           Inl e \<Rightarrow> Inl e
         | Inr tape1 \<Rightarrow>
             if tape_ix2 < 0 then Inl OutOfBounds
             else
               (case write_block tape1 (nat tape_ix2) initial_tape of
                  Inl e \<Rightarrow> Inl e
                | Inr tape2 \<Rightarrow>
                    (case poke tape2 (int final_tape_len) NUL of
                       Inl e \<Rightarrow> Inl e
                     | Inr tape3 \<Rightarrow>
                         Inr (s\<lparr>tape := tape3, tape_ix := tape_ix2, step := 0,
                                curr_state := 0\<rparr>))))"

text \<open>
  The body of the second \<^verbatim>\<open>while\<close> loop. \<^verbatim>\<open>print_tape\<close> only writes the frame to stdout
  and changes no variable, so it has no part in the state.
\<close>

definition pass2_step :: "state list \<Rightarrow> machine \<Rightarrow> run_error + bool \<times> machine" where
  "pass2_step states s =
     (case peek (tape s) (tape_ix s) of
        Inl e \<Rightarrow> Inl e
      | Inr curr_value \<Rightarrow>
     (case fetch_state states (curr_state s) of
        Inl e \<Rightarrow> Inl e
      | Inr st \<Rightarrow>
     (let a = select_action st curr_value in
      case poke (tape s) (tape_ix s) (bit_char (value_to_write a)) of
        Inl e \<Rightarrow> Inl e
      | Inr tape1 \<Rightarrow>
          if direction_to_move a = 0 then Inr (True, s\<lparr>tape := tape1\<rparr>)
          else Inr (False, s\<lparr>tape := tape1, tape_ix := tape_ix s + direction_to_move a,
                             curr_state := next_state a\<rparr>))))"

text \<open>The second \<^verbatim>\<open>while (1)\<close> loop has no limit check: it ends only by \<^verbatim>\<open>break\<close> (or by a
  failure), and not returning is the value \<open>None\<close>.\<close>

partial_function (option) pass2_loop :: "state list \<Rightarrow> machine \<Rightarrow> (run_error + machine) option" where
  "pass2_loop states s =
     (case pass2_step states (s\<lparr>step := step s + 1\<rparr>) of
        Inl e \<Rightarrow> Some (Inl e)
      | Inr (halted, s2) \<Rightarrow> if halted then Some (Inr s2) else pass2_loop states s2)"

declare pass2_loop.simps [code]

subsection \<open>\<^verbatim>\<open>run\<close>\<close>

text \<open>What \<^verbatim>\<open>run\<close> leaves behind: the line printed at verbosity 0, or the final state of
  the second execution.\<close>

datatype run_output = Printed string | Traced machine

definition run ::
  "state list \<Rightarrow> string \<Rightarrow> 64 word \<Rightarrow> 64 word \<Rightarrow> int \<Rightarrow> (run_error + run_output) option" where
  "run states initial_tape max_tape_len max_steps verbosity =
     (case check_tape initial_tape 0 of
        Inl e \<Rightarrow> Some (Inl e)
      | Inr initial_tape_len \<Rightarrow>
          (case pass1_loop states max_tape_len max_steps
                  (pass1_init initial_tape initial_tape_len) of
             Inl e \<Rightarrow> Some (Inl e)
           | Inr s \<Rightarrow>
               if verbosity = 0 then
                 (case output_line s of
                    Inl e \<Rightarrow> Some (Inl e)
                  | Inr line \<Rightarrow> Some (Inr (Printed line)))
               else
                 (case pass2_init initial_tape s of
                    Inl e \<Rightarrow> Some (Inl e)
                  | Inr s2 \<Rightarrow>
                      (case pass2_loop states s2 of
                         None \<Rightarrow> None
                       | Some (Inl e) \<Rightarrow> Some (Inl e)
                       | Some (Inr s3) \<Rightarrow> Some (Inr (Traced s3))))))"

section \<open>Notions used to state the properties\<close>

text \<open>
  The actions of a token list, in the words of the specification: scanning left to
  right, every token with value at least \<^verbatim>\<open>RIGHT\<close> terminates one action, whose body is
  the list of tokens since the previous terminator. \<open>split_actions\<close> lists the bodies
  with their terminators, in the order of decoding.
\<close>

fun split_actions :: "token list \<Rightarrow> token list \<Rightarrow> (token list \<times> token) list" where
  "split_actions [] body = []"
| "split_actions (t # ts) body =
     (if token_val t < token_val RIGHT then split_actions ts (body @ [t])
      else (body, t) # split_actions ts [])"

text \<open>The three branches of \<open>decode_action\<close> on the body of an action given as a list
  (lemma \<open>decode_action_body\<close> below), and the loop of \<open>create_states\<close> on the list of
  actions (lemma \<open>create_states_fill\<close>).\<close>

definition decode_body :: "nat \<Rightarrow> nat \<Rightarrow> token list \<times> token \<Rightarrow> decode_error + action" where
  "decode_body states_len state_number bt =
     (let body = fst bt; direction = direction_of (snd bt) in
      if body = [] then
        Inr \<lparr>value_to_write = 0, direction_to_move = direction, next_state = 0\<rparr>
      else if length body = 1 then
        Inr \<lparr>value_to_write = int (token_val (last body)),
             direction_to_move = direction, next_state = 0\<rparr>
      else
        (let next_state_ix = read_next_state_ix (rev (butlast body)) 0 0
         in if next_state_ix > size_pred states_len
            then Inl (UndefinedStateReference state_number next_state_ix)
            else Inr \<lparr>value_to_write = int (token_val (last body)),
                      direction_to_move = direction, next_state = next_state_ix\<rparr>))"

fun fill :: "nat \<Rightarrow> (token list \<times> token) list \<Rightarrow> nat \<Rightarrow> state list \<Rightarrow> decode_error + state list" where
  "fill states_len [] k sts = Inr sts"
| "fill states_len (bt # bts) k sts =
     (case decode_body states_len (k div 2) bt of
        Inl e \<Rightarrow> Inl e
      | Inr a \<Rightarrow> fill states_len bts (k + 1) (store_action sts k (k div 2) a))"

text \<open>The action with index \<open>m\<close> of a table: \<^verbatim>\<open>action0\<close> of state \<open>m div 2\<close> for an even
  \<open>m\<close>, \<^verbatim>\<open>action1\<close> for an odd one.\<close>

definition table_action :: "state list \<Rightarrow> nat \<Rightarrow> action" where
  "table_action sts m =
     (if m mod 2 = 0 then action0 (sts ! (m div 2)) else action1 (sts ! (m div 2)))"

text \<open>The binary number that a list of \<^verbatim>\<open>ZERO\<close>/\<^verbatim>\<open>ONE\<close> tokens forms when read
  most-significant-bit-first, as the specification words the target state.\<close>

definition binary_value :: "token list \<Rightarrow> nat" where
  "binary_value ts = foldl (\<lambda>acc t. 2 * acc + token_val t) 0 ts"

text \<open>The target index that \<open>decode_action\<close> computes for a body of two or more tokens.\<close>

definition body_target :: "token list \<Rightarrow> nat" where
  "body_target body = read_next_state_ix (rev (butlast body)) 0 0"

text \<open>An action whose body spells out a target (two or more tokens) that is not an index
  of the table.\<close>

definition dangling :: "nat \<Rightarrow> token list \<times> token \<Rightarrow> bool" where
  "dangling states_len bt = (2 \<le> length (fst bt) \<and> \<not> body_target (fst bt) < states_len)"

text \<open>
  The tape as the machine sees it: the character of the cell at position \<open>r\<close> relative
  to the cell where the head started. \<^verbatim>\<open>tape_ix - rel_tape_ix\<close> is the index of that
  starting cell in the buffer; a cell outside the buffer is blank.
\<close>

definition cell_at :: "machine \<Rightarrow> int \<Rightarrow> char" where
  "cell_at s r =
     (let p = tape_ix s - rel_tape_ix s + r
      in if 0 \<le> p \<and> p < int (tape_len s) then tape s ! nat p else CHR '' '')"

text \<open>
  What holds of the variables at the head of the first loop when the initial tape is
  not empty: the buffer holds \<^verbatim>\<open>tape_len\<close> cells without NUL and the terminator, the head
  is on a cell, and the cells between the least and the greatest relative position
  recorded are in the buffer.
\<close>

definition pass1_inv :: "machine \<Rightarrow> bool" where
  "pass1_inv s =
     (length (tape s) = Suc (tape_len s) \<and> tape s ! tape_len s = NUL
      \<and> NUL \<notin> set (take (tape_len s) (tape s))
      \<and> 0 \<le> tape_ix s \<and> tape_ix s < int (tape_len s)
      \<and> 0 < tape_expansion_amt s
      \<and> min_rel_tape_ix s \<le> rel_tape_ix s \<and> rel_tape_ix s \<le> max_rel_tape_ix s
      \<and> min_rel_tape_ix s \<le> 0
      \<and> 0 \<le> tape_ix s - rel_tape_ix s + min_rel_tape_ix s
      \<and> tape_ix s - rel_tape_ix s + max_rel_tape_ix s < int (tape_len s))"

text \<open>A table as \<open>parse_tm\<close> builds it: at least one state, every \<^verbatim>\<open>next_state\<close> an index
  of the table, every direction -1, 0 or +1.\<close>

definition wf_table :: "state list \<Rightarrow> bool" where
  "wf_table states =
     (states \<noteq> []
      \<and> (\<forall>st\<in>set states.
            next_state (action0 st) < length states \<and> next_state (action1 st) < length states
          \<and> direction_to_move (action0 st) \<in> {- 1, 0, 1}
          \<and> direction_to_move (action1 st) \<in> {- 1, 0, 1}))"

text \<open>
  The relation between the state \<open>s1\<close> of the first execution and the state \<open>s2\<close> of the
  second one over the relative positions \<open>mn\<close> to \<open>mx\<close>: the same current state, the
  head on the same cell, and the buffer of \<open>s2\<close> holding exactly the cells \<open>mn\<close> to \<open>mx\<close>
  of \<open>s1\<close>, followed by the terminator.
\<close>

definition same_window :: "int \<Rightarrow> int \<Rightarrow> machine \<Rightarrow> machine \<Rightarrow> bool" where
  "same_window mn mx s1 s2 =
     (curr_state s2 = curr_state s1
      \<and> tape_ix s2 = rel_tape_ix s1 - mn
      \<and> length (tape s2) = Suc (nat (mx - mn + 1))
      \<and> (\<forall>r. mn \<le> r \<and> r \<le> mx \<longrightarrow> tape s2 ! nat (r - mn) = cell_at s1 r))"

text \<open>
  Two tables for the examples. \<open>stop_on_one\<close> is decoded from \<^verbatim>\<open>11110110\<close>: state 0 writes
  0 and moves right on a 0, writes 0 and stops on a 1. \<open>left_then_stop\<close> is decoded from
  \<^verbatim>\<open>100111011110\<close>: state 0 moves right on a 0 and goes left into state 1 on a 1; state 1
  stops on a 0.
\<close>

definition stop_on_one :: "state list" where
  "stop_on_one =
     [\<lparr>number = 0,
       action0 = \<lparr>value_to_write = 0, direction_to_move = 1, next_state = 0\<rparr>,
       action1 = \<lparr>value_to_write = 0, direction_to_move = 0, next_state = 0\<rparr>\<rparr>,
      \<lparr>number = 1,
       action0 = \<lparr>value_to_write = 0, direction_to_move = 1, next_state = 0\<rparr>,
       action1 = \<lparr>value_to_write = 0, direction_to_move = 1, next_state = 0\<rparr>\<rparr>]"

definition left_then_stop :: "state list" where
  "left_then_stop =
     [\<lparr>number = 0,
       action0 = \<lparr>value_to_write = 0, direction_to_move = 1, next_state = 0\<rparr>,
       action1 = \<lparr>value_to_write = 0, direction_to_move = - 1, next_state = 1\<rparr>\<rparr>,
      \<lparr>number = 1,
       action0 = \<lparr>value_to_write = 0, direction_to_move = 0, next_state = 0\<rparr>,
       action1 = \<lparr>value_to_write = 0, direction_to_move = 1, next_state = 0\<rparr>\<rparr>]"

section \<open>The codec: from the loops to the list of actions\<close>

lemma decode_action_body:
  assumes "ts \<le> length pre"
  shows "decode_action (pre @ t # suf) sl sn ts (length pre) = decode_body sl sn (drop ts pre, t)"
proof -
  let ?body = "drop ts pre"
  have len: "length ?body = length pre - ts" by simp
  have e1: "(ts = length pre) = (?body = [])" using assms by auto
  have e2: "ts \<noteq> length pre \<Longrightarrow> (ts = length pre - 1) = (length ?body = 1)"
    using assms by auto
  have l: "(pre @ t # suf) ! (length pre - 1) = last ?body" if "ts \<noteq> length pre"
  proof -
    have ne: "pre \<noteq> []" using that assms by auto
    then have "(pre @ t # suf) ! (length pre - 1) = pre ! (length pre - 1)"
      by (simp add: nth_append)
    also have "\<dots> = last pre" using ne by (simp add: last_conv_nth)
    also have "\<dots> = last ?body" using that assms by simp
    finally show ?thesis .
  qed
  have b: "take (length pre - 1 - ts) (drop ts (pre @ t # suf)) = butlast ?body"
    using assms by (simp add: butlast_conv_take)
  show ?thesis
    unfolding decode_action_def decode_body_def Let_def
    using e1 e2 l b by (simp add: nth_append)
qed

lemma state_ix_next:
  "(if (k + 1) mod 2 = 0 then k div 2 + 1 else k div 2) = (k + 1) div (2::nat)"
  by presburger

lemma create_states_fill:
  "ts \<le> length pre \<Longrightarrow>
   create_states (pre @ suf) sl (length pre) sts k (k div 2) ts
     = fill sl (split_actions suf (drop ts pre)) k sts"
proof (induction suf arbitrary: pre sts k ts)
  case Nil
  show ?case by (subst create_states.simps) simp
next
  case (Cons t suf)
  have app: "pre @ t # suf = (pre @ [t]) @ suf" by simp
  show ?case
  proof (cases "token_val t < token_val RIGHT")
    case True
    have "create_states (pre @ t # suf) sl (length pre) sts k (k div 2) ts
        = create_states ((pre @ [t]) @ suf) sl (length (pre @ [t])) sts k (k div 2) ts"
      using True by (subst create_states.simps) (simp add: nth_append)
    also have "\<dots> = fill sl (split_actions suf (drop ts (pre @ [t]))) k sts"
      using Cons.prems by (intro Cons.IH) simp
    finally show ?thesis using True Cons.prems by simp
  next
    case False
    show ?thesis
    proof (cases "decode_body sl (k div 2) (drop ts pre, t)")
      case (Inl e)
      then show ?thesis using False Cons.prems
        by (subst create_states.simps) (simp add: nth_append decode_action_body)
    next
      case (Inr a)
      have "create_states (pre @ t # suf) sl (length pre) sts k (k div 2) ts
          = create_states ((pre @ [t]) @ suf) sl (length (pre @ [t]))
              (store_action sts k (k div 2) a) (k + 1) ((k + 1) div 2) (length (pre @ [t]))"
        using False Cons.prems Inr
        by (subst create_states.simps)
           (simp only: state_ix_next, simp add: nth_append decode_action_body)
      also have "\<dots> = fill sl (split_actions suf (drop (length (pre @ [t])) (pre @ [t]))) (k + 1)
                         (store_action sts k (k div 2) a)"
        by (intro Cons.IH) simp
      finally show ?thesis using False Inr by simp
    qed
  qed
qed

lemma count_actions_Suc: "count_actions ts (Suc n) = Suc (count_actions ts n)"
  by (induction ts arbitrary: n) auto

lemma count_actions_split: "count_actions ts n = n + length (split_actions ts body)"
  by (induction ts arbitrary: n body) (auto simp: count_actions_Suc)


lemma length_store_action [simp]: "length (store_action sts k j a) = length sts"
  by (simp add: store_action_def Let_def)

lemma store_action_other: "j' \<noteq> j \<Longrightarrow> store_action sts k j a ! j' = sts ! j'"
  by (simp add: store_action_def Let_def)

lemma store_action_number: "j < length sts \<Longrightarrow> number (store_action sts k j a ! j) = j"
  by (simp add: store_action_def Let_def)

lemma store_action_here:
  "k div 2 < length sts \<Longrightarrow> table_action (store_action sts k (k div 2) a) k = a"
  by (simp add: store_action_def table_action_def Let_def)

lemma store_action_before:
  assumes "m < k"
  shows "table_action (store_action sts k (k div 2) a) m = table_action sts m"
proof (cases "m div 2 = k div 2")
  case False
  then show ?thesis by (simp add: table_action_def store_action_other)
next
  case True
  with assms have mk: "m mod 2 = 0" "k mod 2 = 1" by presburger+
  show ?thesis
  proof (cases "k div 2 < length sts")
    case True
    then show ?thesis using mk \<open>m div 2 = k div 2\<close>
      by (simp add: store_action_def table_action_def Let_def)
  next
    case False
    then show ?thesis by (simp add: store_action_def table_action_def Let_def list_update_beyond)
  qed
qed

lemma store_action_number_keep:
  "number (sts ! j') = j' \<Longrightarrow> number (store_action sts k j a ! j') = j'"
  by (cases "j' = j"; cases "j < length sts")
     (simp_all add: store_action_def Let_def list_update_beyond)

lemma fill_success:
  assumes "fill sl bts k sts = Inr sts'" and "k + length bts \<le> 2 * length sts"
  shows "length sts' = length sts
       \<and> (\<forall>m<length bts. decode_body sl ((k + m) div 2) (bts ! m) = Inr (table_action sts' (k + m))
                        \<and> number (sts' ! ((k + m) div 2)) = (k + m) div 2)
       \<and> (\<forall>m<k. table_action sts' m = table_action sts m)
       \<and> (\<forall>j. number (sts ! j) = j \<longrightarrow> number (sts' ! j) = j)"
  using assms
proof (induction bts arbitrary: k sts)
  case Nil
  then show ?case by simp
next
  case (Cons bt bts)
  from Cons.prems(1) obtain a where a: "decode_body sl (k div 2) bt = Inr a"
    and rest: "fill sl bts (k + 1) (store_action sts k (k div 2) a) = Inr sts'"
    by (auto split: sum.splits)
  let ?sts1 = "store_action sts k (k div 2) a"
  have kin: "k div 2 < length sts" using Cons.prems(2) by simp
  have "k + 1 + length bts \<le> 2 * length ?sts1" using Cons.prems(2) by simp
  from Cons.IH [OF rest this]
  have len: "length sts' = length sts"
    and new: "\<And>m. m < length bts \<Longrightarrow>
                decode_body sl ((k + 1 + m) div 2) (bts ! m) = Inr (table_action sts' (k + 1 + m))
                \<and> number (sts' ! ((k + 1 + m) div 2)) = (k + 1 + m) div 2"
    and old: "\<And>m. m < k + 1 \<Longrightarrow> table_action sts' m = table_action ?sts1 m"
    and num: "\<And>j. number (?sts1 ! j) = j \<Longrightarrow> number (sts' ! j) = j"
    by auto
  have here: "table_action sts' k = a"
    using old [of k] kin by (simp add: store_action_here)
  have numk: "number (sts' ! (k div 2)) = k div 2"
    using num [of "k div 2"] kin by (simp add: store_action_number)
  have c2: "decode_body sl ((k + m) div 2) ((bt # bts) ! m) = Inr (table_action sts' (k + m))
            \<and> number (sts' ! ((k + m) div 2)) = (k + m) div 2" if "m < length (bt # bts)" for m
  proof (cases m)
    case 0
    then show ?thesis using a here numk by simp
  next
    case (Suc m')
    then show ?thesis using new [of m'] that by simp
  qed
  have c3: "table_action sts' m = table_action sts m" if "m < k" for m
    using old [of m] that by (simp add: store_action_before)
  have c4: "number (sts' ! j) = j" if "number (sts ! j) = j" for j
    using num [of j] that by (simp add: store_action_number_keep)
  show ?case using len c2 c3 c4 by blast
qed


lemma tokenize_acc: "tokenize cs i n acc = Inr toks \<Longrightarrow> \<exists>more. toks = acc @ more"
proof (induction cs arbitrary: i n acc)
  case Nil
  then show ?case by simp
next
  case (Cons c cs)
  show ?case
  proof (cases "c = CHR ''0''")
    case True
    with Cons.prems have "tokenize cs (i + 1) 0 (acc @ [token_of_nat n]) = Inr toks"
      by (auto split: if_splits)
    from Cons.IH [OF this] obtain more where "toks = (acc @ [token_of_nat n]) @ more" ..
    then have "toks = acc @ (token_of_nat n # more)" by simp
    then show ?thesis ..
  next
    case False
    with Cons.prems have "tokenize cs (i + 1) (n + 1) acc = Inr toks"
      by (auto split: if_splits)
    from Cons.IH [OF this] show ?thesis .
  qed
qed

lemma tokenize_suffix:
  "tokenize (xs @ ''110'') i n acc = Inr toks \<Longrightarrow>
     \<exists>mid l. toks = acc @ mid @ [l] \<and> token_val RIGHT \<le> token_val l"
proof (induction xs arbitrary: i n acc)
  case Nil
  then have "n \<le> 2" and "toks = acc @ [token_of_nat (n + 2)]"
    by (auto split: if_splits)
  moreover from \<open>n \<le> 2\<close> have "token_val RIGHT \<le> token_val (token_of_nat (n + 2))"
    by (auto simp: token_of_nat_def)
  ultimately show ?case by auto
next
  case (Cons c xs)
  show ?case
  proof (cases "c = CHR ''0''")
    case True
    with Cons.prems have "tokenize (xs @ ''110'') (i + 1) 0 (acc @ [token_of_nat n]) = Inr toks"
      by (auto split: if_splits)
    from Cons.IH [OF this] obtain mid l where
      "toks = (acc @ [token_of_nat n]) @ mid @ [l]" "token_val RIGHT \<le> token_val l" by blast
    then have "toks = acc @ (token_of_nat n # mid) @ [l]" by simp
    with \<open>token_val RIGHT \<le> token_val l\<close> show ?thesis by blast
  next
    case False
    with Cons.prems have "tokenize (xs @ ''110'') (i + 1) (n + 1) acc = Inr toks"
      by (auto split: if_splits)
    from Cons.IH [OF this] show ?thesis .
  qed
qed

lemma tokenize_prefix: "tokenize (''110'' @ rest) 0 0 [] = tokenize rest 3 0 [RIGHT]"
  by (simp add: token_of_nat_def numeral_3_eq_3)

lemma tokenize_tm_tmp:
  assumes "tokenize (tm_tmp tm) 0 0 [] = Inr toks"
  shows "\<exists>mid l. toks = RIGHT # mid @ [l] \<and> token_val RIGHT \<le> token_val l"
proof -
  have "tokenize (tm @ ''110'') 3 0 [RIGHT] = Inr toks"
    using assms unfolding tm_tmp_def by (simp only: tokenize_prefix)
  from tokenize_suffix [OF this] show ?thesis by auto
qed

lemma count_actions_filter:
  "count_actions ts n = n + length (filter (\<lambda>t. token_val RIGHT \<le> token_val t) ts)"
  by (induction ts arbitrary: n) auto


lemma parse_tm_fill:
  assumes "check_chars tm 0 = Inr n" and "tokenize (tm_tmp tm) 0 0 [] = Inr tokens"
  shows "parse_tm tm =
     (if count_actions tokens 0 mod 2 \<noteq> 0 then Inl IncompleteStateDefinition
      else fill (count_actions tokens 0 div 2) (split_actions tokens []) 0
             (replicate (count_actions tokens 0 div 2) zero_state))"
proof -
  have "create_states tokens sl 0 sts 0 0 0 = fill sl (split_actions tokens []) 0 sts" for sl sts
    using create_states_fill [of 0 "[]" tokens sl sts 0] by simp
  then show ?thesis using assms by (simp add: parse_tm_def Let_def)
qed

lemma parse_tm_Inr_tokens:
  assumes "parse_tm tm = Inr sts"
  obtains n tokens where "check_chars tm 0 = Inr n" and "tokenize (tm_tmp tm) 0 0 [] = Inr tokens"
  using assms by (auto simp: parse_tm_def split: sum.splits)

lemma parse_tm_success:
  assumes ok: "parse_tm tm = Inr sts" and tk: "tokenize (tm_tmp tm) 0 0 [] = Inr tokens"
  shows "count_actions tokens 0 = 2 * length sts"
    and "length (split_actions tokens []) = 2 * length sts"
    and "\<And>m. m < 2 * length sts \<Longrightarrow>
           decode_body (length sts) (m div 2) (split_actions tokens [] ! m)
             = Inr (table_action sts m)"
    and "\<And>i. i < length sts \<Longrightarrow> number (sts ! i) = i"
proof -
  from ok obtain n where ck: "check_chars tm 0 = Inr n"
    by (auto simp: parse_tm_def split: sum.splits)
  let ?c = "count_actions tokens 0"
  let ?bts = "split_actions tokens []"
  have cl: "?c = length ?bts" using count_actions_split [of tokens 0 "[]"] by simp
  from ok parse_tm_fill [OF ck tk] have even: "?c mod 2 = 0"
    and f: "fill (?c div 2) ?bts 0 (replicate (?c div 2) zero_state) = Inr sts"
    by (auto split: if_splits)
  have "0 + length ?bts \<le> 2 * length (replicate (?c div 2) zero_state)"
    using even cl by simp presburger
  from fill_success [OF f this]
  have len: "length sts = ?c div 2"
    and act: "\<And>m. m < length ?bts \<Longrightarrow>
                decode_body (?c div 2) (m div 2) (?bts ! m) = Inr (table_action sts m)
                \<and> number (sts ! (m div 2)) = m div 2"
    by auto
  show c: "?c = 2 * length sts" using len even by presburger
  then show l: "length ?bts = 2 * length sts" using cl by simp
  show "decode_body (length sts) (m div 2) (?bts ! m) = Inr (table_action sts m)"
    if "m < 2 * length sts" for m
    using act [of m] that l len by simp
  show "number (sts ! i) = i" if "i < length sts" for i
    using act [of "2 * i"] that l by simp
qed


lemma decode_body_cases:
  assumes "0 < sl"
  shows "decode_body sl sn bt =
     (if dangling sl bt then Inl (UndefinedStateReference sn (body_target (fst bt)))
      else Inr \<lparr>value_to_write = (if fst bt = [] then 0 else int (token_val (last (fst bt)))),
                direction_to_move = direction_of (snd bt),
                next_state = (if length (fst bt) < 2 then 0 else body_target (fst bt))\<rparr>)"
proof -
  have "(size_pred sl < x) = (\<not> x < sl)" for x
    using assms by (auto simp: size_pred_def)
  moreover have "(length (fst bt) = 1) = (fst bt \<noteq> [] \<and> length (fst bt) < 2)"
    by (cases "fst bt") auto
  ultimately show ?thesis
    by (auto simp: decode_body_def dangling_def body_target_def Let_def)
qed

lemma decode_body_Inr:
  assumes "decode_body sl sn bt = Inr a" and "0 < sl"
  shows "next_state a < sl" and "direction_to_move a \<in> {- 1, 0, 1}"
    and "value_to_write a = (if fst bt = [] then 0 else int (token_val (last (fst bt))))"
    and "direction_to_move a = direction_of (snd bt)"
    and "next_state a = (if length (fst bt) < 2 then 0 else body_target (fst bt))"
  using assms
  by (auto simp: decode_body_cases dangling_def direction_of_def split: if_splits)

lemma fill_error:
  "fill sl bts k sts = Inl e \<Longrightarrow> \<exists>s t. e = UndefinedStateReference s t"
  by (induction bts arbitrary: k sts)
     (auto simp: decode_body_def Let_def split: sum.splits if_splits)

lemma parse_tm_nonempty:
  assumes "parse_tm tm = Inr sts"
  shows "0 < length sts"
proof -
  from assms obtain tokens where tk: "tokenize (tm_tmp tm) 0 0 [] = Inr tokens"
    by (auto simp: parse_tm_def split: sum.splits)
  from tokenize_tm_tmp [OF tk] obtain mid l where
    "tokens = RIGHT # mid @ [l]" "token_val RIGHT \<le> token_val l" by blast
  then have "2 \<le> count_actions tokens 0"
    by (simp add: count_actions_filter)
  with parse_tm_success(1) [OF assms tk] show ?thesis by (cases sts) auto
qed

section \<open>Properties of the codec\<close>

text \<open>
  Claim C9. Let the specification consist of 0s and 1s and tokenize without error. If
  the number of actions counted is odd, \<open>parse_tm\<close> fails with
  \<open>IncompleteStateDefinition\<close>. If it is even, the only possible failure is an undefined
  state reference; and whenever a table is returned, the count is twice the number of
  states, state \<open>i\<close> carries the number \<open>i\<close>, its \<^verbatim>\<open>action0\<close> is the decoding of action
  \<open>2 * i\<close> and its \<^verbatim>\<open>action1\<close> the decoding of action \<open>2 * i + 1\<close>, the actions being
  numbered in the order in which they are decoded.
\<close>

theorem actions_pair_into_states:
  assumes "check_chars tm 0 = Inr n" and "tokenize (tm_tmp tm) 0 0 [] = Inr tokens"
  shows "(count_actions tokens 0 mod 2 = 1 \<longrightarrow> parse_tm tm = Inl IncompleteStateDefinition)
       \<and> (count_actions tokens 0 mod 2 = 0 \<longrightarrow>
            (\<exists>sts. parse_tm tm = Inr sts) \<or> (\<exists>s t. parse_tm tm = Inl (UndefinedStateReference s t)))
       \<and> (\<forall>sts. parse_tm tm = Inr sts \<longrightarrow>
            count_actions tokens 0 = 2 * length sts
          \<and> length (split_actions tokens []) = 2 * length sts
          \<and> (\<forall>i<length sts.
                number (sts ! i) = i
              \<and> decode_body (length sts) i (split_actions tokens [] ! (2 * i))
                  = Inr (action0 (sts ! i))
              \<and> decode_body (length sts) i (split_actions tokens [] ! (2 * i + 1))
                  = Inr (action1 (sts ! i))))"
proof (intro conjI allI impI)
  assume "count_actions tokens 0 mod 2 = 1"
  then show "parse_tm tm = Inl IncompleteStateDefinition"
    by (simp add: parse_tm_fill [OF assms])
next
  assume ev: "count_actions tokens 0 mod 2 = 0"
  show "(\<exists>sts. parse_tm tm = Inr sts) \<or> (\<exists>s t. parse_tm tm = Inl (UndefinedStateReference s t))"
  proof (cases "parse_tm tm")
    case (Inl e)
    then have "fill (count_actions tokens 0 div 2) (split_actions tokens []) 0
                 (replicate (count_actions tokens 0 div 2) zero_state) = Inl e"
      using ev by (simp add: parse_tm_fill [OF assms])
    from fill_error [OF this] Inl show ?thesis by auto
  next
    case (Inr sts)
    then show ?thesis by auto
  qed
next
  fix sts assume ok: "parse_tm tm = Inr sts"
  show "count_actions tokens 0 = 2 * length sts"
    by (rule parse_tm_success(1) [OF ok assms(2)])
  show "length (split_actions tokens []) = 2 * length sts"
    by (rule parse_tm_success(2) [OF ok assms(2)])
  fix i assume i: "i < length sts"
  show "number (sts ! i) = i"
    by (rule parse_tm_success(4) [OF ok assms(2) i])
  show "decode_body (length sts) i (split_actions tokens [] ! (2 * i)) = Inr (action0 (sts ! i))"
    using parse_tm_success(3) [OF ok assms(2), of "2 * i"] i by (simp add: table_action_def)
  show "decode_body (length sts) i (split_actions tokens [] ! (2 * i + 1)) = Inr (action1 (sts ! i))"
    using parse_tm_success(3) [OF ok assms(2), of "2 * i + 1"] i by (simp add: table_action_def)
qed

theorem actions_pair_into_states_witness:
  "check_chars ''11110110'' 0 = Inr 8
 \<and> tokenize (tm_tmp ''11110110'') 0 0 [] = Inr [RIGHT, STOP, RIGHT, RIGHT]
 \<and> count_actions [RIGHT, STOP, RIGHT, RIGHT] 0 = 2 * 2
 \<and> parse_tm ''11110110'' =
     Inr [\<lparr>number = 0,
           action0 = \<lparr>value_to_write = 0, direction_to_move = 1, next_state = 0\<rparr>,
           action1 = \<lparr>value_to_write = 0, direction_to_move = 0, next_state = 0\<rparr>\<rparr>,
          \<lparr>number = 1,
           action0 = \<lparr>value_to_write = 0, direction_to_move = 1, next_state = 0\<rparr>,
           action1 = \<lparr>value_to_write = 0, direction_to_move = 1, next_state = 0\<rparr>\<rparr>]
 \<and> decode_body 2 1 (split_actions [RIGHT, STOP, RIGHT, RIGHT] [] ! 3)
     = Inr \<lparr>value_to_write = 0, direction_to_move = 1, next_state = 0\<rparr>
 \<and> check_chars ''11110'' 0 = Inr 5
 \<and> tokenize (tm_tmp ''11110'') 0 0 [] = Inr [RIGHT, STOP, RIGHT]
 \<and> count_actions [RIGHT, STOP, RIGHT] 0 mod 2 = 1
 \<and> parse_tm ''11110'' = Inl IncompleteStateDefinition"
proof -
  have c1: "check_chars ''11110110'' 0 = Inr 8" by simp
  have t1: "tokenize (tm_tmp ''11110110'') 0 0 [] = Inr [RIGHT, STOP, RIGHT, RIGHT]"
    by (simp add: tm_tmp_def token_of_nat_def)
  have p1: "parse_tm ''11110110'' =
     Inr [\<lparr>number = 0,
           action0 = \<lparr>value_to_write = 0, direction_to_move = 1, next_state = 0\<rparr>,
           action1 = \<lparr>value_to_write = 0, direction_to_move = 0, next_state = 0\<rparr>\<rparr>,
          \<lparr>number = 1,
           action0 = \<lparr>value_to_write = 0, direction_to_move = 1, next_state = 0\<rparr>,
           action1 = \<lparr>value_to_write = 0, direction_to_move = 1, next_state = 0\<rparr>\<rparr>]"
    by code_simp
  have c2: "check_chars ''11110'' 0 = Inr 5" by simp
  have t2: "tokenize (tm_tmp ''11110'') 0 0 [] = Inr [RIGHT, STOP, RIGHT]"
    by (simp add: tm_tmp_def token_of_nat_def)
  have o2: "count_actions [RIGHT, STOP, RIGHT] 0 mod 2 = 1" by simp
  from actions_pair_into_states [OF c1 t1] p1
  have "decode_body 2 1 (split_actions [RIGHT, STOP, RIGHT, RIGHT] [] ! 3)
     = Inr \<lparr>value_to_write = 0, direction_to_move = 1, next_state = 0\<rparr>"
    by (auto dest!: spec [of _ 1] simp: numeral_2_eq_2)
  moreover from actions_pair_into_states [OF c2 t2] o2
  have "parse_tm ''11110'' = Inl IncompleteStateDefinition" by blast
  ultimately show ?thesis using c1 t1 p1 c2 t2 o2 by simp
qed


lemma parse_tm_in_range:
  assumes ok: "parse_tm tm = Inr sts" and m: "m < 2 * length sts"
  shows "next_state (table_action sts m) < length sts"
    and "direction_to_move (table_action sts m) \<in> {- 1, 0, 1}"
proof -
  from ok obtain tokens where tk: "tokenize (tm_tmp tm) 0 0 [] = Inr tokens"
    by (auto simp: parse_tm_def split: sum.splits)
  note d = parse_tm_success(3) [OF ok tk m]
  show "next_state (table_action sts m) < length sts"
    by (rule decode_body_Inr(1) [OF d parse_tm_nonempty [OF ok]])
  show "direction_to_move (table_action sts m) \<in> {- 1, 0, 1}"
    by (rule decode_body_Inr(2) [OF d parse_tm_nonempty [OF ok]])
qed


lemma shift_in_range:
  assumes "j < 32" and "v \<le> 1"
  shows "unat (push_bit j (word_of_nat v * 1 :: 32 word)) = v * 2 ^ j"
proof (cases "v = 0")
  case True
  then show ?thesis by simp
next
  case False
  with assms have "v = 1" by simp
  moreover have "unat (push_bit j (1 :: 32 word)) = 2 ^ j"
  proof -
    have "(2::nat) ^ j < 2 ^ 32" using assms(1) by (rule power_strict_increasing) simp
    then have t: "take_bit 32 ((2::nat) ^ j) = 2 ^ j" by (rule take_bit_nat_eq_self)
    have a: "unat (push_bit j (1 :: 32 word))
               = take_bit LENGTH(32) (push_bit j (unat (1 :: 32 word)))"
      by (rule unsigned_push_bit_eq)
    have b: "push_bit j (unat (1 :: 32 word)) = (2::nat) ^ j"
      by (simp add: push_bit_eq_mult)
    have c: "LENGTH(32) = 32" by simp
    show ?thesis unfolding a b c by (rule t)
  qed
  ultimately show ?thesis by simp
qed

lemma read_next_state_ix_binary:
  assumes "j + length ts \<le> 32" and "\<forall>t\<in>set ts. token_val t \<le> 1"
  shows "read_next_state_ix ts j acc = acc + 2 ^ j * binary_value (rev ts)"
  using assms
proof (induction ts arbitrary: j acc)
  case Nil
  then show ?case by (simp add: binary_value_def)
next
  case (Cons t ts)
  have j: "j < 32" and v: "token_val t \<le> 1" using Cons.prems by auto
  have "read_next_state_ix (t # ts) j acc
      = read_next_state_ix ts (j + 1) (acc + token_val t * 2 ^ j)"
    using shift_in_range [OF j v] by simp
  also have "\<dots> = acc + token_val t * 2 ^ j + 2 ^ (j + 1) * binary_value (rev ts)"
    using Cons.prems by (intro Cons.IH) auto
  also have "\<dots> = acc + 2 ^ j * binary_value (rev (t # ts))"
    by (simp add: binary_value_def algebra_simps)
  finally show ?case .
qed

lemma body_target_binary:
  assumes "length body \<le> 33" and "\<forall>t\<in>set body. token_val t \<le> 1"
  shows "body_target body = binary_value (butlast body)"
proof -
  have "\<forall>t\<in>set (rev (butlast body)). token_val t \<le> 1"
    using assms(2) by (auto dest: in_set_butlastD)
  moreover have "0 + length (rev (butlast body)) \<le> 32" using assms(1) by simp
  ultimately show ?thesis
    unfolding body_target_def by (simp add: read_next_state_ix_binary)
qed

lemma split_actions_bodies:
  assumes "\<forall>t\<in>set body. token_val t \<le> 1" and "bt \<in> set (split_actions ts body)"
  shows "\<forall>t\<in>set (fst bt). token_val t \<le> 1"
  using assms
proof (induction ts arbitrary: body)
  case Nil
  then show ?case by simp
next
  case (Cons t ts)
  show ?case
  proof (cases "token_val t < token_val RIGHT")
    case True
    then have "\<forall>t\<in>set (body @ [t]). token_val t \<le> 1" using Cons.prems(1) by auto
    moreover have "bt \<in> set (split_actions ts (body @ [t]))" using Cons.prems(2) True by simp
    ultimately show ?thesis by (rule Cons.IH)
  next
    case False
    with Cons.prems(2) have "bt = (body, t) \<or> bt \<in> set (split_actions ts [])" by simp
    then show ?thesis
    proof
      assume "bt = (body, t)"
      with Cons.prems(1) show ?thesis by simp
    next
      assume "bt \<in> set (split_actions ts [])"
      with Cons.IH [of "[]"] show ?thesis by simp
    qed
  qed
qed

lemma decoded_action_short_address:
  assumes ok: "parse_tm tm = Inr sts" and tk: "tokenize (tm_tmp tm) 0 0 [] = Inr tokens"
    and m: "m < 2 * length sts" and short: "length (fst (split_actions tokens [] ! m)) \<le> 33"
  shows "value_to_write (table_action sts m) =
           (if fst (split_actions tokens [] ! m) = [] then 0
            else int (token_val (last (fst (split_actions tokens [] ! m)))))"
    and "next_state (table_action sts m) =
           (if length (fst (split_actions tokens [] ! m)) < 2 then 0
            else binary_value (butlast (fst (split_actions tokens [] ! m))))"
proof -
  let ?bt = "split_actions tokens [] ! m"
  note d = parse_tm_success(3) [OF ok tk m]
  note pos = parse_tm_nonempty [OF ok]
  have "?bt \<in> set (split_actions tokens [])"
    using m parse_tm_success(2) [OF ok tk] by simp
  then have "\<forall>t\<in>set (fst ?bt). token_val t \<le> 1"
    by (intro split_actions_bodies [of "[]"]) auto
  then have bt: "body_target (fst ?bt) = binary_value (butlast (fst ?bt))"
    using short by (intro body_target_binary)
  show "value_to_write (table_action sts m) =
           (if fst ?bt = [] then 0 else int (token_val (last (fst ?bt))))"
    by (rule decode_body_Inr(3) [OF d pos])
  show "next_state (table_action sts m) =
           (if length (fst ?bt) < 2 then 0 else binary_value (butlast (fst ?bt)))"
    using decode_body_Inr(5) [OF d pos] bt by simp
qed

lemma tokenize_run:
  "n + k \<le> 4 \<Longrightarrow>
   tokenize (replicate k CHR ''1'' @ CHR ''0'' # rest) i n acc
     = tokenize rest (i + k + 1) 0 (acc @ [token_of_nat (n + k)])"
  by (induction k arbitrary: i n) auto

lemma tokenize_long_run:
  "n + k = 5 \<Longrightarrow>
   tokenize (replicate k CHR ''1'' @ c # rest) i n acc = Inl (InvalidRunLength (i + k))"
  by (induction k arbitrary: i n) auto

lemma tokenize_five_ones:
  "\<exists>j. tokenize (xs @ ''11111'' @ c # rest) i n acc = Inl (InvalidRunLength j)"
proof (induction xs arbitrary: i n acc)
  case Nil
  show ?case by auto
next
  case (Cons x xs)
  from Cons.IH show ?case by auto
qed





text \<open>
  Claim C7. A specification with a run of five or more 1s is rejected with
  \<open>InvalidRunLength\<close> and the index of the offending position in the given string; runs
  of zero to four 1s closed by a 0 are the tokens \<^verbatim>\<open>ZERO\<close>, \<^verbatim>\<open>ONE\<close>, \<^verbatim>\<open>RIGHT\<close>, \<^verbatim>\<open>LEFT\<close>,
  \<^verbatim>\<open>STOP\<close>. The tokens and the rejection are as claimed (lemmas \<open>tokenize_run\<close> and
  \<open>tokenize_five_ones\<close> above). The index is the loop index into \<^verbatim>\<open>tm_tmp\<close>, which starts
  with the three characters of the implicit prefix: for the six characters \<^verbatim>\<open>111110\<close> the
  index reported is 8, past the end of the given string.
\<close>

theorem run_length_error_index:
  "length ''111110'' = 6 \<and> parse_tm ''111110'' = Inl (InvalidRunLength 8)"
  by code_simp

text \<open>
  Claim C10, as stated, has the implicit suffix contribute a \<^verbatim>\<open>RIGHT\<close>-terminated action.
  For the specification \<^verbatim>\<open>1\<close> the suffix closes the run begun by the input, and the last
  action is terminated by \<^verbatim>\<open>LEFT\<close>.
\<close>

theorem table_has_a_state_counterexample:
  "tokenize (tm_tmp ''1'') 0 0 [] = Inr [RIGHT, LEFT]
 \<and> parse_tm ''1'' =
     Inr [\<lparr>number = 0,
           action0 = \<lparr>value_to_write = 0, direction_to_move = 1, next_state = 0\<rparr>,
           action1 = \<lparr>value_to_write = 0, direction_to_move = - 1, next_state = 0\<rparr>\<rparr>]"
  by code_simp

text \<open>
  Claim C10, amended. For every specification that \<open>parse_tm\<close> accepts, the first token
  is the \<^verbatim>\<open>RIGHT\<close> of the implicit prefix and the last token, closed by the implicit
  suffix, is \<^verbatim>\<open>RIGHT\<close>, \<^verbatim>\<open>LEFT\<close> or \<^verbatim>\<open>STOP\<close>; so at least two actions are counted, the table
  has at least one state, and the target state 0 of every action whose body has at most
  one token exists.
\<close>

theorem table_has_a_state:
  assumes "parse_tm tm = Inr sts"
  shows "\<exists>tokens mid l.
           tokenize (tm_tmp tm) 0 0 [] = Inr tokens
         \<and> tokens = RIGHT # mid @ [l] \<and> (l = RIGHT \<or> l = LEFT \<or> l = STOP)
         \<and> 2 \<le> count_actions tokens 0
         \<and> 1 \<le> length sts
         \<and> (\<forall>m<2 * length sts. length (fst (split_actions tokens [] ! m)) \<le> 1
               \<longrightarrow> next_state (table_action sts m) = 0 \<and> 0 < length sts)"
proof -
  from assms obtain tokens where tk: "tokenize (tm_tmp tm) 0 0 [] = Inr tokens"
    by (auto simp: parse_tm_def split: sum.splits)
  from tokenize_tm_tmp [OF tk] obtain mid l where
    t: "tokens = RIGHT # mid @ [l]" and l: "token_val RIGHT \<le> token_val l" by blast
  from l have l': "l = RIGHT \<or> l = LEFT \<or> l = STOP" by (cases l) auto
  from t l have c: "2 \<le> count_actions tokens 0" by (simp add: count_actions_filter)
  note pos = parse_tm_nonempty [OF assms]
  have "next_state (table_action sts m) = 0"
    if "m < 2 * length sts" "length (fst (split_actions tokens [] ! m)) \<le> 1" for m
    using decode_body_Inr(5) [OF parse_tm_success(3) [OF assms tk that(1)] pos] that(2) by simp
  then have d: "\<forall>m<2 * length sts. length (fst (split_actions tokens [] ! m)) \<le> 1
               \<longrightarrow> next_state (table_action sts m) = 0 \<and> 0 < length sts"
    using pos by blast
  have one: "1 \<le> length sts" using pos by (cases sts) auto
  show ?thesis
    using tk t l' c one d by blast
qed

theorem table_has_a_state_witness:
  "parse_tm ''11'' =
     Inr [\<lparr>number = 0,
           action0 = \<lparr>value_to_write = 0, direction_to_move = 1, next_state = 0\<rparr>,
           action1 = \<lparr>value_to_write = 0, direction_to_move = 0, next_state = 0\<rparr>\<rparr>]
 \<and> (\<exists>tokens mid l. tokenize (tm_tmp ''11'') 0 0 [] = Inr tokens
         \<and> tokens = RIGHT # mid @ [l] \<and> (l = RIGHT \<or> l = LEFT \<or> l = STOP)
         \<and> 2 \<le> count_actions tokens 0)"
proof -
  have p: "parse_tm ''11'' =
     Inr [\<lparr>number = 0,
           action0 = \<lparr>value_to_write = 0, direction_to_move = 1, next_state = 0\<rparr>,
           action1 = \<lparr>value_to_write = 0, direction_to_move = 0, next_state = 0\<rparr>\<rparr>]"
    by code_simp
  from table_has_a_state [OF p] show ?thesis using p by blast
qed


section \<open>The execution engine: the tape buffer and one step\<close>

lemma buffer_split:
  assumes "length tp = Suc len" and "tp ! len = NUL"
  shows "tp = take len tp @ [NUL]"
  using assms by (metis lessI take_Suc_conv_app_nth take_all order_refl)

lemma takeWhile_buffer:
  assumes "length tp = Suc len" and "tp ! len = NUL" and "NUL \<notin> set (take len tp)"
  shows "takeWhile (\<lambda>c. c \<noteq> NUL) tp = take len tp"
proof -
  have "\<forall>x\<in>set (take len tp). x \<noteq> NUL" using assms(3) by blast
  then have "takeWhile (\<lambda>c. c \<noteq> NUL) (take len tp @ [NUL]) = take len tp"
    by (simp add: takeWhile_tail)
  then show ?thesis using buffer_split [OF assms(1,2)] by simp
qed

lemma NUL_in_buffer:
  assumes "length tp = Suc len" and "tp ! len = NUL"
  shows "NUL \<in> set tp"
  using assms by (metis lessI nth_mem)

lemma poke_last: "length xs = n \<Longrightarrow> poke (xs @ [c]) (int n) c' = Inr (xs @ [c'])"
  by (auto simp: poke_def)

lemma write_block_mid:
  "length new = length old \<Longrightarrow>
   write_block (pre @ old @ post) (length pre) new = Inr (pre @ new @ post)"
  by (simp add: write_block_def)

lemma strcpy_buffer:
  assumes "length tp = Suc len" and "tp ! len = NUL" and "NUL \<notin> set (take len tp)"
    and "length old = Suc len"
  shows "strcpy (pre @ old @ post) (length pre) tp = Inr (pre @ tp @ post)"
proof -
  have tw: "takeWhile (\<lambda>c. c \<noteq> NUL) tp @ [NUL] = tp"
    using takeWhile_buffer [OF assms(1-3)] buffer_split [OF assms(1,2)] by simp
  show ?thesis
    using NUL_in_buffer [OF assms(1,2)] assms(1,4)
    by (simp only: strcpy_def tw if_True write_block_mid)
qed

lemma expand_left_ok:
  assumes "length tp = Suc len" and "tp ! len = NUL" and "NUL \<notin> set (take len tp)"
  shows "expand_left tp len amt = Inr (replicate amt CHR '' '' @ tp)"
proof -
  have "len + amt + 1 = amt + Suc len" by simp
  then have c: "calloc (len + amt + 1) = [] @ replicate amt NUL @ replicate (Suc len) NUL"
    by (simp only: calloc_def replicate_add append_Nil)
  have a: "write_block (calloc (len + amt + 1)) 0 (replicate amt CHR '' '')
          = Inr ([] @ replicate amt CHR '' '' @ replicate (Suc len) NUL)"
    unfolding c using write_block_mid [of "replicate amt CHR '' ''" "replicate amt NUL" "[]"]
    by simp
  have b: "strcpy (replicate amt CHR '' '' @ replicate (Suc len) NUL @ []) amt tp
          = Inr (replicate amt CHR '' '' @ tp @ [])"
    using strcpy_buffer [OF assms, of "replicate (Suc len) NUL" "replicate amt CHR '' ''" "[]"]
    by simp
  show ?thesis using a b by (simp add: expand_left_def)
qed

lemma expand_right_ok:
  assumes "length tp = Suc len" and "tp ! len = NUL" and "NUL \<notin> set (take len tp)"
  shows "expand_right tp len amt = Inr (take len tp @ replicate amt CHR '' '' @ [NUL])"
proof -
  have "len + amt + 1 = Suc len + amt" by simp
  then have c: "calloc (len + amt + 1) = [] @ replicate (Suc len) NUL @ replicate amt NUL"
    by (simp only: calloc_def replicate_add append_Nil)
  have a: "strcpy (calloc (len + amt + 1)) 0 tp = Inr ([] @ tp @ replicate amt NUL)"
    unfolding c
    using strcpy_buffer [OF assms, of "replicate (Suc len) NUL" "[]" "replicate amt NUL"]
    by simp
  have tp: "tp = take len tp @ [NUL]" by (rule buffer_split [OF assms(1,2)])
  have "tp @ replicate amt NUL = take len tp @ ([NUL] @ replicate amt NUL)"
    using tp by (metis append_assoc)
  also have "[NUL] @ replicate amt NUL = replicate amt NUL @ [NUL]"
    by (simp add: replicate_append_same)
  finally have shape: "tp @ replicate amt NUL = take len tp @ replicate amt NUL @ [NUL]" .
  have l: "length (take len tp) = len" using assms(1) by simp
  have b: "write_block (tp @ replicate amt NUL) len (replicate amt CHR '' '')
          = Inr (take len tp @ replicate amt CHR '' '' @ [NUL])"
    unfolding shape
    using write_block_mid [of "replicate amt CHR '' ''" "replicate amt NUL" "take len tp" "[NUL]"] l
    by simp
  have c: "poke (take len tp @ replicate amt CHR '' '' @ [NUL]) (int (len + amt)) NUL
          = Inr (take len tp @ replicate amt CHR '' '' @ [NUL])"
    using poke_last [of "take len tp @ replicate amt CHR '' ''" "len + amt" NUL NUL] l
    by simp
  show ?thesis using a b c by (simp add: expand_right_def)
qed


lemma select_action_cases:
  "select_action st c = action0 st \<or> select_action st c = action1 st"
  by (simp add: select_action_def)

lemma wf_table_select:
  assumes "wf_table states" and "k < length states"
  shows "next_state (select_action (states ! k) c) < length states"
    and "direction_to_move (select_action (states ! k) c) \<in> {- 1, 0, 1}"
proof -
  have "states ! k \<in> set states" using assms(2) by simp
  then have "next_state (action0 (states ! k)) < length states"
       "next_state (action1 (states ! k)) < length states"
       "direction_to_move (action0 (states ! k)) \<in> {- 1, 0, 1}"
       "direction_to_move (action1 (states ! k)) \<in> {- 1, 0, 1}"
    using assms(1) unfolding wf_table_def by blast+
  then show "next_state (select_action (states ! k) c) < length states"
    and "direction_to_move (select_action (states ! k) c) \<in> {- 1, 0, 1}"
    using select_action_cases [of "states ! k" c] by auto
qed

lemma NUL_not_blank [simp]: "NUL \<noteq> CHR '' ''" "CHR '' '' \<noteq> NUL"
  by (simp_all add: NUL_def)

lemma bit_char_not_NUL: "bit_char v \<noteq> NUL"
  by (simp add: bit_char_def NUL_def)

lemma pass1_step_halt:
  assumes inv: "pass1_inv s" and cs: "curr_state s < length states"
    and a: "a = select_action (states ! curr_state s) (tape s ! nat (tape_ix s))"
    and d: "direction_to_move a = 0"
  shows "pass1_step states s
           = Inr (True, s\<lparr>tape := (tape s)[nat (tape_ix s) := bit_char (value_to_write a)]\<rparr>)"
  using inv cs d unfolding pass1_inv_def pass1_step_def a [symmetric]
  by (simp add: peek_def poke_def fetch_state_def Let_def a [symmetric])


lemma written_buffer:
  assumes "length tp = Suc len" and "tp ! len = NUL" and "NUL \<notin> set (take len tp)"
    and "k < len"
  shows "length (tp[k := bit_char v]) = Suc len"
    and "tp[k := bit_char v] ! len = NUL"
    and "NUL \<notin> set (take len (tp[k := bit_char v]))"
proof -
  show "length (tp[k := bit_char v]) = Suc len" using assms(1) by simp
  show "tp[k := bit_char v] ! len = NUL" using assms(2,4) by simp
  have "set (take len (tp[k := bit_char v])) \<subseteq> insert (bit_char v) (set (take len tp))"
    by (simp add: take_update_swap set_update_subset_insert)
  then show "NUL \<notin> set (take len (tp[k := bit_char v]))"
    using assms(3) bit_char_not_NUL [of v] by auto
qed

lemma cell_shift_left:
  "(if 0 \<le> int amt + p \<and> int amt + p < int (len + amt)
    then (replicate amt CHR '' '' @ xs) ! nat (int amt + p) else CHR '' '')
   = (if 0 \<le> p \<and> p < int len then xs ! nat p else CHR '' '')"
proof (cases "0 \<le> p")
  case True
  then have "nat (int amt + p) = amt + nat p" by (simp add: nat_add_distrib)
  then show ?thesis using True by (auto simp: nth_append)
next
  case False
  then have "0 \<le> int amt + p \<Longrightarrow> nat (int amt + p) < amt" by auto
  then show ?thesis using False by (auto simp: nth_append)
qed

lemma cell_grow_right:
  assumes "length xs = Suc len"
  shows "(if 0 \<le> p \<and> p < int (len + amt)
          then (take len xs @ replicate amt CHR '' '' @ [NUL]) ! nat p else CHR '' '')
       = (if 0 \<le> p \<and> p < int len then xs ! nat p else CHR '' '')"
proof (cases "0 \<le> p \<and> p < int len")
  case True
  then have "nat p < len" by auto
  then show ?thesis using True assms by (auto simp: nth_append)
next
  case False
  show ?thesis
  proof (cases "0 \<le> p \<and> p < int (len + amt)")
    case True
    with False have "len \<le> nat p" "nat p - len < amt" by auto
    then show ?thesis using True False assms by (auto simp: nth_append)
  next
    case False
    then show ?thesis by auto
  qed
qed

lemma cell_update:
  assumes "length xs = Suc len" and "ix < len"
  shows "(if 0 \<le> p \<and> p < int len then (xs[ix := ch]) ! nat p else CHR '' '')
       = (if p = int ix then ch else if 0 \<le> p \<and> p < int len then xs ! nat p else CHR '' '')"
  using assms by (auto simp: nth_list_update)

lemma cell_at_head:
  assumes "pass1_inv s"
  shows "cell_at s (rel_tape_ix s) = tape s ! nat (tape_ix s)"
  using assms by (simp add: cell_at_def pass1_inv_def)

lemma pass1_step_effect:
  assumes inv: "pass1_inv s" and wf: "wf_table states" and cs: "curr_state s < length states"
    and a: "a = select_action (states ! curr_state s) (cell_at s (rel_tape_ix s))"
  shows "\<exists>s'. pass1_step states s = Inr (direction_to_move a = 0, s')
           \<and> cell_at s' = (cell_at s)(rel_tape_ix s := bit_char (value_to_write a))
           \<and> rel_tape_ix s' = rel_tape_ix s + direction_to_move a
           \<and> curr_state s' = (if direction_to_move a = 0 then curr_state s else next_state a)
           \<and> min_rel_tape_ix s' = min (min_rel_tape_ix s) (rel_tape_ix s + direction_to_move a)
           \<and> max_rel_tape_ix s' = max (max_rel_tape_ix s) (rel_tape_ix s + direction_to_move a)
           \<and> step s' = step s
           \<and> pass1_inv s' \<and> curr_state s' < length states"
proof -
  define ix where "ix = nat (tape_ix s)"
  define len where "len = tape_len s"
  define ch where "ch = bit_char (value_to_write a)"
  define tape1 where "tape1 = (tape s)[ix := ch]"
  define d where "d = direction_to_move a"
  define amt where "amt = tape_expansion_amt s"
  have a': "a = select_action (states ! curr_state s) (tape s ! ix)"
    using a cell_at_head [OF inv] by (simp add: ix_def)
  have ixi: "tape_ix s = int ix" and ixl: "ix < len" and ll: "length (tape s) = Suc len"
    and nul: "tape s ! len = NUL" and nn: "NUL \<notin> set (take len (tape s))"
    and amt0: "0 < amt"
    and rel: "min_rel_tape_ix s \<le> rel_tape_ix s" "rel_tape_ix s \<le> max_rel_tape_ix s"
      "min_rel_tape_ix s \<le> 0" "0 \<le> int ix - rel_tape_ix s + min_rel_tape_ix s"
      "int ix - rel_tape_ix s + max_rel_tape_ix s < int len"
    using inv by (auto simp: pass1_inv_def ix_def len_def amt_def)
  have wb: "length tape1 = Suc len" "tape1 ! len = NUL" "NUL \<notin> set (take len tape1)"
    unfolding tape1_def ch_def by (rule written_buffer [OF ll nul nn ixl])+
  have dd: "d = - 1 \<or> d = 0 \<or> d = 1" and nx: "next_state a < length states"
    using wf_table_select [OF wf cs] a' by (auto simp: d_def)
  have pre: "peek (tape s) (tape_ix s) = Inr (tape s ! ix)"
    "fetch_state states (curr_state s) = Inr (states ! curr_state s)"
    "poke (tape s) (tape_ix s) ch = Inr tape1"
    using ixi ixl ll cs by (simp_all add: peek_def poke_def fetch_state_def tape1_def)
  have step_eq: "pass1_step states s =
     (if d = 0 then Inr (True, s\<lparr>tape := tape1\<rparr>)
      else if int ix + d < 0 \<or> int ix + d = int len then
        (case (if int ix + d < 0 then expand_left tape1 len amt
               else expand_right tape1 len amt) of
           Inl e \<Rightarrow> Inl e
         | Inr tape_tmp \<Rightarrow>
             Inr (False,
                  s\<lparr>tape := tape_tmp,
                    tape_ix := (if int ix + d < 0 then int ix + d + int amt else int ix + d),
                    rel_tape_ix := rel_tape_ix s + d,
                    min_rel_tape_ix := min (min_rel_tape_ix s) (rel_tape_ix s + d),
                    max_rel_tape_ix := max (max_rel_tape_ix s) (rel_tape_ix s + d),
                    tape_len := len + amt, tape_expansion_amt := amt * 2,
                    curr_state := next_state a\<rparr>))
      else Inr (False,
                s\<lparr>tape := tape1, tape_ix := int ix + d,
                  rel_tape_ix := rel_tape_ix s + d,
                  min_rel_tape_ix := min (min_rel_tape_ix s) (rel_tape_ix s + d),
                  max_rel_tape_ix := max (max_rel_tape_ix s) (rel_tape_ix s + d),
                  curr_state := next_state a\<rparr>))"
    using pre ixi unfolding pass1_step_def tape1_def ch_def d_def len_def amt_def a'
    by (auto simp: Let_def min_def max_def split: sum.splits)
  consider (halt) "d = 0" | (left_grow) "d = - 1" "ix = 0" | (right_grow) "d = 1" "Suc ix = len"
    | (move) "d \<noteq> 0" "0 \<le> int ix + d" "int ix + d < int len"
    using dd ixl by (cases "ix = 0"; cases "Suc ix = len") auto
  then show ?thesis
  proof cases
    case halt
    let ?s' = "s\<lparr>tape := tape1\<rparr>"
    have "pass1_step states s = Inr (True, ?s')"
      using halt by (simp add: step_eq)
    moreover have "cell_at ?s' = (cell_at s)(rel_tape_ix s := ch)"
      using ixi ixl ll by (auto simp: cell_at_def fun_eq_iff tape1_def Let_def len_def)
    moreover have "pass1_inv ?s'"
      using inv wb by (simp add: pass1_inv_def len_def)
    ultimately show ?thesis
      using halt cs rel by (intro exI [of _ ?s']) (simp add: d_def [symmetric] ch_def)
  next
    case left_grow
    let ?s' = "s\<lparr>tape := replicate amt CHR '' '' @ tape1, tape_ix := int amt - 1,
                  rel_tape_ix := rel_tape_ix s - 1,
                  min_rel_tape_ix := min (min_rel_tape_ix s) (rel_tape_ix s - 1),
                  max_rel_tape_ix := max (max_rel_tape_ix s) (rel_tape_ix s - 1),
                  tape_len := len + amt, tape_expansion_amt := amt * 2,
                  curr_state := next_state a\<rparr>"
    have "pass1_step states s = Inr (False, ?s')"
      using left_grow expand_left_ok [OF wb, of amt] by (simp add: step_eq)
    moreover have "cell_at ?s' = (cell_at s)(rel_tape_ix s := ch)"
    proof
      fix r
      define q where "q = int ix - rel_tape_ix s + r"
      have e: "tape_ix ?s' - rel_tape_ix ?s' + r = int amt + q"
        using left_grow by (simp add: q_def)
      have t: "tape ?s' = replicate amt CHR '' '' @ tape1" "tape_len ?s' = len + amt"
        by simp_all
      have "cell_at ?s' r =
              (if 0 \<le> int amt + q \<and> int amt + q < int (len + amt)
               then (replicate amt CHR '' '' @ tape1) ! nat (int amt + q) else CHR '' '')"
        unfolding cell_at_def Let_def e t by (rule refl)
      also have "\<dots> = (if 0 \<le> q \<and> q < int len then tape1 ! nat q else CHR '' '')"
        by (rule cell_shift_left)
      also have "\<dots> =
              (if 0 \<le> int ix - rel_tape_ix s + r \<and> int ix - rel_tape_ix s + r < int len
               then tape1 ! nat (int ix - rel_tape_ix s + r) else CHR '' '')"
        by (simp only: q_def)
      also have "\<dots> = ((cell_at s)(rel_tape_ix s := ch)) r"
        unfolding tape1_def cell_update [OF ll ixl]
        using ixi by (auto simp: cell_at_def Let_def len_def)
      finally show "cell_at ?s' r = ((cell_at s)(rel_tape_ix s := ch)) r" .
    qed
    moreover have "pass1_inv ?s'"
      using wb rel left_grow amt0 ixi
      by (auto simp: pass1_inv_def nth_append)
    ultimately show ?thesis
      using left_grow nx rel
      by (intro exI [of _ ?s']) (simp add: d_def [symmetric] ch_def)
  next
    case right_grow
    let ?s' = "s\<lparr>tape := take len tape1 @ replicate amt CHR '' '' @ [NUL], tape_ix := int len,
                  rel_tape_ix := rel_tape_ix s + 1,
                  min_rel_tape_ix := min (min_rel_tape_ix s) (rel_tape_ix s + 1),
                  max_rel_tape_ix := max (max_rel_tape_ix s) (rel_tape_ix s + 1),
                  tape_len := len + amt, tape_expansion_amt := amt * 2,
                  curr_state := next_state a\<rparr>"
    have "int ix + 1 = int len" using right_grow by simp
    then have "pass1_step states s = Inr (False, ?s')"
      using right_grow expand_right_ok [OF wb, of amt] by (simp add: step_eq)
    moreover have "cell_at ?s' = (cell_at s)(rel_tape_ix s := ch)"
    proof
      fix r
      define q where "q = int ix - rel_tape_ix s + r"
      have e: "tape_ix ?s' - rel_tape_ix ?s' + r = q"
        using right_grow by (auto simp: q_def)
      have t: "tape ?s' = take len tape1 @ replicate amt CHR '' '' @ [NUL]"
        "tape_len ?s' = len + amt"
        by simp_all
      have "cell_at ?s' r =
              (if 0 \<le> q \<and> q < int (len + amt)
               then (take len tape1 @ replicate amt CHR '' '' @ [NUL]) ! nat q else CHR '' '')"
        unfolding cell_at_def Let_def e t by (rule refl)
      also have "\<dots> = (if 0 \<le> q \<and> q < int len then tape1 ! nat q else CHR '' '')"
        by (rule cell_grow_right [OF wb(1)])
      also have "\<dots> =
              (if 0 \<le> int ix - rel_tape_ix s + r \<and> int ix - rel_tape_ix s + r < int len
               then tape1 ! nat (int ix - rel_tape_ix s + r) else CHR '' '')"
        by (simp only: q_def)
      also have "\<dots> = ((cell_at s)(rel_tape_ix s := ch)) r"
        unfolding tape1_def cell_update [OF ll ixl]
        using ixi by (auto simp: cell_at_def Let_def len_def)
      finally show "cell_at ?s' r = ((cell_at s)(rel_tape_ix s := ch)) r" .
    qed
    moreover have "pass1_inv ?s'"
      using wb rel right_grow amt0 ixi
      by (auto simp: pass1_inv_def nth_append)
    ultimately show ?thesis
      using right_grow nx rel
      by (intro exI [of _ ?s']) (simp add: d_def [symmetric] ch_def)
  next
    case move
    let ?s' = "s\<lparr>tape := tape1, tape_ix := int ix + d,
                  rel_tape_ix := rel_tape_ix s + d,
                  min_rel_tape_ix := min (min_rel_tape_ix s) (rel_tape_ix s + d),
                  max_rel_tape_ix := max (max_rel_tape_ix s) (rel_tape_ix s + d),
                  curr_state := next_state a\<rparr>"
    have "pass1_step states s = Inr (False, ?s')"
      using move by (simp add: step_eq)
    moreover have "cell_at ?s' = (cell_at s)(rel_tape_ix s := ch)"
      using ixi ixl ll by (auto simp: cell_at_def fun_eq_iff tape1_def Let_def len_def)
    moreover have "pass1_inv ?s'"
      using inv wb move rel dd ixi
      by (auto simp: pass1_inv_def len_def [symmetric] amt_def [symmetric])
    ultimately show ?thesis
      using move nx rel
      by (intro exI [of _ ?s']) (simp add: d_def [symmetric] ch_def)
  qed
qed


lemma pass1_inv_step_update [simp]: "pass1_inv (s\<lparr>step := x\<rparr>) = pass1_inv s"
  by (simp add: pass1_inv_def)

lemma cell_at_step_update [simp]: "cell_at (s\<lparr>step := x\<rparr>) = cell_at s"
  by (simp add: cell_at_def fun_eq_iff Let_def)

lemma pass1_loop_induct_Inr [consumes 1, case_names iterate]:
  assumes run: "pass1_loop states max_tape_len max_steps s = Inr sf"
    and iter: "\<And>s h s'.
        pass1_loop states max_tape_len max_steps s = Inr sf \<Longrightarrow>
        step s \<noteq> max_steps \<Longrightarrow> tape_len s \<le> unat max_tape_len \<Longrightarrow>
        pass1_step states (s\<lparr>step := step s + 1\<rparr>) = Inr (h, s') \<Longrightarrow>
        (h \<Longrightarrow> sf = s') \<Longrightarrow>
        (\<not> h \<Longrightarrow> pass1_loop states max_tape_len max_steps s' = Inr sf) \<Longrightarrow>
        (\<not> h \<Longrightarrow> P s') \<Longrightarrow> P s"
  shows "P s"
  using run iter
proof (induction states max_tape_len max_steps s rule: pass1_loop.induct)
  case (1 states max_tape_len max_steps s)
  from "1.prems" have ne: "step s \<noteq> max_steps"
    by (subst (asm) pass1_loop.simps) (simp split: if_splits)
  from "1.prems" ne have tl: "tape_len s \<le> unat max_tape_len"
    by (subst (asm) pass1_loop.simps) (simp add: Let_def split: if_splits)
  have unfold: "pass1_loop states max_tape_len max_steps s =
      (case pass1_step states (s\<lparr>step := step s + 1\<rparr>) of
         Inl e \<Rightarrow> Inl e
       | Inr (halted, s2) \<Rightarrow>
           if halted then Inr s2 else pass1_loop states max_tape_len max_steps s2)"
    using ne tl by (subst pass1_loop.simps) (simp add: Let_def)
  obtain h s' where st: "pass1_step states (s\<lparr>step := step s + 1\<rparr>) = Inr (h, s')"
  proof (cases "pass1_step states (s\<lparr>step := step s + 1\<rparr>)")
    case (Inl e)
    with "1.prems"(1) unfold show ?thesis by simp
  next
    case (Inr x)
    then show ?thesis using that [of "fst x" "snd x"] by simp
  qed
  have fin: "sf = s'" if h using "1.prems"(1) that unfolding unfold st by simp
  have rec: "pass1_loop states max_tape_len max_steps s' = Inr sf" if "\<not> h"
    using "1.prems"(1) that unfolding unfold st by simp
  show ?case
  proof (rule "1.prems"(2) [OF "1.prems"(1) ne tl st fin rec])
    assume nh: "\<not> h"
    show "P s'"
    proof (rule "1.IH" [OF ne refl _ st refl nh rec [OF nh]])
      show "\<not> unat max_tape_len < tape_len (s\<lparr>step := step s + 1\<rparr>)" using tl by simp
    next
      fix s h s'
      assume "pass1_loop states max_tape_len max_steps s = Inr sf"
        "step s \<noteq> max_steps" "tape_len s \<le> unat max_tape_len"
        "pass1_step states (s\<lparr>step := step s + 1\<rparr>) = Inr (h, s')"
        "h \<Longrightarrow> sf = s'" "\<not> h \<Longrightarrow> pass1_loop states max_tape_len max_steps s' = Inr sf"
        "\<not> h \<Longrightarrow> P s'"
      then show "P s" by (rule "1.prems"(2))
    qed
  qed
qed


section \<open>The execution engine: the two executions\<close>

lemma parse_tm_wf:
  assumes ok: "parse_tm tm = Inr sts"
  shows "wf_table sts"
  unfolding wf_table_def
proof (intro conjI ballI)
  show "sts \<noteq> []" using parse_tm_nonempty [OF ok] by simp
next
  fix st assume "st \<in> set sts"
  then obtain i where i: "i < length sts" and st: "st = sts ! i"
    by (auto simp: in_set_conv_nth)
  have a0: "action0 st = table_action sts (2 * i)" and a1: "action1 st = table_action sts (2 * i + 1)"
    by (simp_all add: table_action_def st)
  have m: "2 * i < 2 * length sts" "2 * i + 1 < 2 * length sts" using i by simp_all
  show "next_state (action0 st) < length sts" unfolding a0 by (rule parse_tm_in_range(1) [OF ok m(1)])
  show "next_state (action1 st) < length sts" unfolding a1 by (rule parse_tm_in_range(1) [OF ok m(2)])
  show "direction_to_move (action0 st) \<in> {- 1, 0, 1}"
    unfolding a0 by (rule parse_tm_in_range(2) [OF ok m(1)])
  show "direction_to_move (action1 st) \<in> {- 1, 0, 1}"
    unfolding a1 by (rule parse_tm_in_range(2) [OF ok m(2)])
qed

lemma check_tape_Inr:
  "check_tape s k = Inr n \<Longrightarrow> n = k + length s \<and> set s \<subseteq> {CHR ''0'', CHR ''1''}"
proof (induction s arbitrary: k)
  case Nil
  then show ?case by simp
next
  case (Cons c s)
  from Cons.prems have c: "c = CHR ''0'' \<or> c = CHR ''1''"
    and r: "check_tape s (k + 1) = Inr n"
    by (auto split: if_splits)
  from Cons.IH [OF r] c show ?case by auto
qed

lemma pass1_init_inv:
  assumes "check_tape initial_tape 0 = Inr n" and "initial_tape \<noteq> []"
  shows "pass1_inv (pass1_init initial_tape n)"
proof -
  from check_tape_Inr [OF assms(1)] have n: "n = length initial_tape"
    and cs: "set initial_tape \<subseteq> {CHR ''0'', CHR ''1''}" by auto
  have "NUL \<notin> set initial_tape" using cs by (auto simp: NUL_def)
  then show ?thesis using n assms(2)
    by (simp add: pass1_inv_def pass1_init_def nth_append)
qed

lemma cell_at_init:
  "cell_at (pass1_init initial_tape (length initial_tape)) r =
     (if 0 \<le> r \<and> r < int (length initial_tape) then initial_tape ! nat r else CHR '' '')"
  by (auto simp: cell_at_def pass1_init_def nth_append)

lemma pass1_loop_final:
  assumes "pass1_loop states max_tape_len max_steps s = Inr sf" and wf: "wf_table states"
    and "pass1_inv s" and "curr_state s < length states"
  shows "pass1_inv sf \<and> curr_state sf < length states
       \<and> min_rel_tape_ix sf \<le> min_rel_tape_ix s \<and> max_rel_tape_ix s \<le> max_rel_tape_ix sf
       \<and> tape_len sf \<le> unat max_tape_len"
  using assms(1,3,4)
proof (induction rule: pass1_loop_induct_Inr)
  case (iterate s h s')
  let ?s = "s\<lparr>step := step s + 1\<rparr>"
  define a where "a = select_action (states ! curr_state ?s) (cell_at ?s (rel_tape_ix ?s))"
  have inv: "pass1_inv ?s" and cs: "curr_state ?s < length states"
    using iterate.prems by simp_all
  from pass1_step_effect [OF inv wf cs a_def] iterate(4)
  have h: "h = (direction_to_move a = 0)"
    and mn: "min_rel_tape_ix s' = min (min_rel_tape_ix s) (rel_tape_ix s + direction_to_move a)"
    and mx: "max_rel_tape_ix s' = max (max_rel_tape_ix s) (rel_tape_ix s + direction_to_move a)"
    and inv': "pass1_inv s'" and cs': "curr_state s' < length states"
    by auto
  show ?case
  proof (cases h)
    case True
    have "tape_len s' = tape_len s"
      using iterate(4) True pass1_step_halt [OF inv cs refl] h a_def cell_at_head [OF inv]
      by (auto simp: a_def)
    with iterate(5) [OF True] iterate(3) True inv' cs' mn mx show ?thesis by simp
  next
    case False
    from iterate(7) [OF False inv' cs'] mn mx show ?thesis by auto
  qed
qed


lemma same_window_step_update [simp]:
  "same_window mn mx s1 (s2\<lparr>step := x\<rparr>) = same_window mn mx s1 s2"
  "same_window mn mx (s1\<lparr>step := x\<rparr>) s2 = same_window mn mx s1 s2"
  by (simp_all add: same_window_def)

lemma pass2_step_sim:
  assumes sim: "same_window mn mx s1 s2"
    and b: "mn \<le> rel_tape_ix s1" "rel_tape_ix s1 \<le> mx"
    and cs: "curr_state s1 < length states"
    and a: "a = select_action (states ! curr_state s1) (cell_at s1 (rel_tape_ix s1))"
  shows "pass2_step states s2 =
           Inr (direction_to_move a = 0,
                s2\<lparr>tape := (tape s2)[nat (tape_ix s2) := bit_char (value_to_write a)],
                   tape_ix := tape_ix s2 + direction_to_move a,
                   curr_state := (if direction_to_move a = 0 then curr_state s2
                                  else next_state a)\<rparr>)"
proof -
  have ix: "0 \<le> tape_ix s2" "tape_ix s2 < int (length (tape s2))"
    using sim b by (auto simp: same_window_def)
  have "tape s2 ! nat (rel_tape_ix s1 - mn) = cell_at s1 (rel_tape_ix s1)"
    using sim b by (simp add: same_window_def)
  then have rd: "tape s2 ! nat (tape_ix s2) = cell_at s1 (rel_tape_ix s1)"
    using sim by (simp add: same_window_def)
  have c2: "curr_state s2 = curr_state s1" using sim by (simp add: same_window_def)
  show ?thesis
    using ix cs unfolding pass2_step_def a
    by (simp add: peek_def poke_def fetch_state_def Let_def rd c2)
qed

lemma same_window_step:
  assumes sim: "same_window mn mx s1 s2"
    and b: "mn \<le> rel_tape_ix s1" "rel_tape_ix s1 \<le> mx"
    and "cell_at s1' = (cell_at s1)(rel_tape_ix s1 := ch)"
    and "rel_tape_ix s1' = rel_tape_ix s1 + d" and "curr_state s1' = c'"
    and "tape s2' = (tape s2)[nat (tape_ix s2) := ch]"
    and "tape_ix s2' = tape_ix s2 + d" and "curr_state s2' = c'"
  shows "same_window mn mx s1' s2'"
proof -
  have ix: "tape_ix s2 = rel_tape_ix s1 - mn"
    and len: "length (tape s2) = Suc (nat (mx - mn + 1))"
    and cells: "\<And>r. mn \<le> r \<Longrightarrow> r \<le> mx \<Longrightarrow> tape s2 ! nat (r - mn) = cell_at s1 r"
    using sim by (auto simp: same_window_def)
  have "tape s2' ! nat (r - mn) = cell_at s1' r" if "mn \<le> r" "r \<le> mx" for r
  proof (cases "r = rel_tape_ix s1")
    case True
    have "nat (rel_tape_ix s1 - mn) < length (tape s2)" using b len by auto
    then show ?thesis using True assms(4,7) ix by simp
  next
    case False
    then have "nat (r - mn) \<noteq> nat (rel_tape_ix s1 - mn)" using that b by auto
    then show ?thesis using False assms(4,7) ix cells [OF that] by simp
  qed
  then show ?thesis
    using assms(5,6,7,8,9) ix len by (simp add: same_window_def)
qed

lemma pass2_follows:
  assumes "pass1_loop states max_tape_len max_steps s1 = Inr sf" and wf: "wf_table states"
    and "pass1_inv s1" and "curr_state s1 < length states" and "same_window mn mx s1 s2"
    and mn: "mn \<le> min_rel_tape_ix sf" and mx: "max_rel_tape_ix sf \<le> mx"
  shows "\<exists>s2f. pass2_loop states s2 = Some (Inr s2f) \<and> same_window mn mx sf s2f"
  using assms(1,3,4,5)
proof (induction arbitrary: s2 rule: pass1_loop_induct_Inr)
  case (iterate s h s')
  let ?s = "s\<lparr>step := step s + 1\<rparr>"
  let ?s2 = "s2\<lparr>step := step s2 + 1\<rparr>"
  define a where "a = select_action (states ! curr_state ?s) (cell_at ?s (rel_tape_ix ?s))"
  have inv: "pass1_inv ?s" and cs: "curr_state ?s < length states"
    using iterate.prems by simp_all
  have sim: "same_window mn mx ?s ?s2" using iterate.prems(3) by simp
  from pass1_loop_final [OF iterate(1) wf iterate.prems(1,2)] mn mx iterate.prems(1)
  have b: "mn \<le> rel_tape_ix ?s" "rel_tape_ix ?s \<le> mx"
    by (auto simp: pass1_inv_def)
  from pass1_step_effect [OF inv wf cs a_def] iterate(4)
  have h: "h = (direction_to_move a = 0)"
    and cells: "cell_at s' = (cell_at ?s)(rel_tape_ix ?s := bit_char (value_to_write a))"
    and rel: "rel_tape_ix s' = rel_tape_ix ?s + direction_to_move a"
    and cur: "curr_state s' = (if direction_to_move a = 0 then curr_state ?s else next_state a)"
    and inv': "pass1_inv s'" and cs': "curr_state s' < length states"
    by auto
  let ?s2' = "?s2\<lparr>tape := (tape ?s2)[nat (tape_ix ?s2) := bit_char (value_to_write a)],
                   tape_ix := tape_ix ?s2 + direction_to_move a,
                   curr_state := (if direction_to_move a = 0 then curr_state ?s2
                                  else next_state a)\<rparr>"
  have st2: "pass2_step states ?s2 = Inr (h, ?s2')"
    unfolding h by (rule pass2_step_sim [OF sim b cs a_def])
  have c2: "curr_state ?s2 = curr_state ?s" using sim by (simp add: same_window_def)
  have sim': "same_window mn mx s' ?s2'"
    by (rule same_window_step [OF sim b cells rel cur]) (simp_all add: c2)
  show ?case
  proof (cases h)
    case True
    have "pass2_loop states s2 = Some (Inr ?s2')"
      using st2 True by (subst pass2_loop.simps) simp
    with sim' iterate(5) [OF True] show ?thesis by blast
  next
    case False
    have "pass2_loop states s2 = pass2_loop states ?s2'"
      using st2 False by (subst pass2_loop.simps) simp
    with iterate(7) [OF False inv' cs' sim'] show ?thesis by simp
  qed
qed


lemma pass2_init_window:
  assumes n: "n = length initial_tape"
    and mn: "min_rel_tape_ix sf \<le> 0" and mx: "int n - 1 \<le> max_rel_tape_ix sf"
    and small: "max_rel_tape_ix sf - min_rel_tape_ix sf + 1 < 2 ^ 64"
  shows "\<exists>s2. pass2_init initial_tape sf = Inr s2
            \<and> same_window (min_rel_tape_ix sf) (max_rel_tape_ix sf) (pass1_init initial_tape n) s2"
proof -
  define W where "W = nat (max_rel_tape_ix sf - min_rel_tape_ix sf + 1)"
  define k where "k = nat (- min_rel_tape_ix sf)"
  define rest where "rest = W - k - n"
  define T where "T = replicate k CHR '' '' @ initial_tape @ replicate rest CHR '' '' @ [NUL]"
  have W: "to_size_t (max_rel_tape_ix sf - min_rel_tape_ix sf + 1) = W"
    using mn mx small by (simp add: to_size_t_def W_def)
  have kn: "W = k + n + rest" using mn mx by (simp add: W_def k_def rest_def)
  have c: "calloc (W + 1) = [] @ replicate W NUL @ [NUL]"
    by (simp add: calloc_def replicate_append_same)
  have w1: "write_block (calloc (W + 1)) 0 (replicate W CHR '' '')
              = Inr ([] @ replicate W CHR '' '' @ [NUL])"
    unfolding c using write_block_mid [of "replicate W CHR '' ''" "replicate W NUL" "[]" "[NUL]"]
    by simp
  have split: "replicate W CHR '' '' @ [NUL]
      = replicate k CHR '' '' @ replicate n CHR '' '' @ (replicate rest CHR '' '' @ [NUL])"
    by (simp add: kn replicate_add)
  have w2: "write_block (replicate W CHR '' '' @ [NUL]) k initial_tape = Inr T"
    unfolding split T_def
    using write_block_mid [of initial_tape "replicate n CHR '' ''" "replicate k CHR '' ''"
        "replicate rest CHR '' '' @ [NUL]"] n
    by simp
  have lT: "length (replicate k CHR '' '' @ initial_tape @ replicate rest CHR '' '') = W"
    using kn n by simp
  have w3: "poke T (int W) NUL = Inr T"
    unfolding T_def using poke_last [OF lT, of NUL NUL] by simp
  let ?s2 = "sf\<lparr>tape := T, tape_ix := - min_rel_tape_ix sf, step := 0, curr_state := 0\<rparr>"
  have k': "nat (- min_rel_tape_ix sf) = k" by (simp add: k_def)
  have init: "pass2_init initial_tape sf = Inr ?s2"
    using mn w1 w2 w3 by (simp add: pass2_init_def Let_def W k')
  have cell: "T ! nat (r - min_rel_tape_ix sf) = cell_at (pass1_init initial_tape n) r"
    if "min_rel_tape_ix sf \<le> r" "r \<le> max_rel_tape_ix sf" for r
  proof -
    define j where "j = nat (r - min_rel_tape_ix sf)"
    have r: "r = int j - int k" using that mn by (simp add: j_def k_def)
    have jW: "j < W" using that by (simp add: j_def W_def)
    consider "j < k" | "k \<le> j" "j < k + n" | "k + n \<le> j"
      by linarith
    then have "T ! j = (if 0 \<le> r \<and> r < int n then initial_tape ! nat r else CHR '' '')"
    proof cases
      case 1
      then show ?thesis using r by (simp add: T_def nth_append)
    next
      case 2
      then have "nat r = j - k" "0 \<le> r" "r < int n" "j - k < length initial_tape"
        using r n by auto
      then show ?thesis using 2 n by (simp add: T_def nth_append)
    next
      case 3
      then have "\<not> r < int n" using r by auto
      moreover have "j - k - n < rest" "\<not> j < k" "\<not> j - k < length initial_tape"
        using 3 jW kn n by auto
      ultimately show ?thesis using n by (simp add: T_def nth_append)
    qed
    then show ?thesis unfolding j_def n by (simp add: cell_at_init)
  qed
  have "same_window (min_rel_tape_ix sf) (max_rel_tape_ix sf) (pass1_init initial_tape n) ?s2"
    using cell kn n by (simp add: same_window_def T_def W_def [symmetric] pass1_init_def)
  with init show ?thesis by blast
qed


lemma pass1_loop_InrE:
  assumes "pass1_loop states max_tape_len max_steps s = Inr sf"
  obtains h s' where "step s \<noteq> max_steps" and "tape_len s \<le> unat max_tape_len"
    and "pass1_step states (s\<lparr>step := step s + 1\<rparr>) = Inr (h, s')"
    and "h \<Longrightarrow> sf = s'"
    and "\<not> h \<Longrightarrow> pass1_loop states max_tape_len max_steps s' = Inr sf"
  using assms by (induction rule: pass1_loop_induct_Inr) blast

lemma pass1_loop_blank_outside:
  assumes "pass1_loop states max_tape_len max_steps s = Inr sf" and wf: "wf_table states"
    and "pass1_inv s" and "curr_state s < length states"
    and "\<forall>r. r < min_rel_tape_ix s \<or> max_rel_tape_ix s < r \<longrightarrow> cell_at s r = CHR '' ''"
  shows "\<forall>r. r < min_rel_tape_ix sf \<or> max_rel_tape_ix sf < r \<longrightarrow> cell_at sf r = CHR '' ''"
  using assms(1,3,4,5)
proof (induction rule: pass1_loop_induct_Inr)
  case (iterate s h s')
  let ?s = "s\<lparr>step := step s + 1\<rparr>"
  define a where "a = select_action (states ! curr_state ?s) (cell_at ?s (rel_tape_ix ?s))"
  have inv: "pass1_inv ?s" and cs: "curr_state ?s < length states"
    using iterate.prems by simp_all
  from pass1_step_effect [OF inv wf cs a_def] iterate(4)
  have h: "h = (direction_to_move a = 0)"
    and cells: "cell_at s' = (cell_at s)(rel_tape_ix s := bit_char (value_to_write a))"
    and mn: "min_rel_tape_ix s' = min (min_rel_tape_ix s) (rel_tape_ix s + direction_to_move a)"
    and mx: "max_rel_tape_ix s' = max (max_rel_tape_ix s) (rel_tape_ix s + direction_to_move a)"
    and inv': "pass1_inv s'" and cs': "curr_state s' < length states"
    by auto
  have b: "min_rel_tape_ix s \<le> rel_tape_ix s" "rel_tape_ix s \<le> max_rel_tape_ix s"
    using iterate.prems(1) by (simp_all add: pass1_inv_def)
  have out: "\<forall>r. r < min_rel_tape_ix s' \<or> max_rel_tape_ix s' < r \<longrightarrow> cell_at s' r = CHR '' ''"
    using iterate.prems(3) b unfolding cells mn mx by auto
  show ?case
  proof (cases h)
    case True
    with iterate(5) out show ?thesis by simp
  next
    case False
    from iterate(7) [OF False inv' cs' out] show ?thesis .
  qed
qed

lemma pass1_loop_empty_tape:
  assumes "pass1_loop states max_tape_len max_steps (pass1_init [] 0) = Inr sf"
  shows "states \<noteq> [] \<and> direction_to_move (action1 (states ! 0)) = 0
       \<and> sf = (pass1_init [] 0)\<lparr>step := 1,
                  tape := [bit_char (value_to_write (action1 (states ! 0)))]\<rparr>"
proof -
  let ?i = "pass1_init [] 0"
  define a where "a = action1 (states ! 0)"
  define ch where "ch = bit_char (value_to_write a)"
  from assms obtain h s' where
    st: "pass1_step states (?i\<lparr>step := step ?i + 1\<rparr>) = Inr (h, s')"
    and fin: "h \<Longrightarrow> sf = s'"
    and rec: "\<not> h \<Longrightarrow> pass1_loop states max_tape_len max_steps s' = Inr sf"
    by (elim pass1_loop_InrE) blast
  have ne: "states \<noteq> []"
    using st by (auto simp: pass1_step_def pass1_init_def peek_def fetch_state_def)
  have sel: "select_action (states ! 0) NUL = a"
    by (simp add: select_action_def NUL_def a_def)
  have step1: "pass1_step states (?i\<lparr>step := step ?i + 1\<rparr>) =
      (if direction_to_move a = 0 then Inr (True, ?i\<lparr>step := 1, tape := [ch]\<rparr>)
       else if direction_to_move a < 0 then Inl OutOfBounds
       else Inr (False, ?i\<lparr>step := 1, tape := [ch], tape_ix := direction_to_move a,
                          rel_tape_ix := direction_to_move a,
                          max_rel_tape_ix := direction_to_move a,
                          curr_state := next_state a\<rparr>))"
  proof -
    have "NUL \<noteq> ch" using bit_char_not_NUL [of "value_to_write a"] by (auto simp: ch_def)
    then show ?thesis
      using ne
      by (simp add: pass1_step_def pass1_init_def peek_def poke_def fetch_state_def sel Let_def
            ch_def [symmetric] expand_left_def strcpy_def write_block_def calloc_def)
  qed
  show ?thesis
  proof (cases "direction_to_move a = 0")
    case True
    with st step1 fin show ?thesis using ne by (auto simp: a_def ch_def)
  next
    case False
    with st step1 have pos: "0 < direction_to_move a" and nh: "\<not> h"
      and s': "s' = ?i\<lparr>step := 1, tape := [ch], tape_ix := direction_to_move a,
                          rel_tape_ix := direction_to_move a,
                          max_rel_tape_ix := direction_to_move a,
                          curr_state := next_state a\<rparr>"
      by (auto split: if_splits)
    from rec [OF nh] obtain h2 s2 where
      "pass1_step states (s'\<lparr>step := step s' + 1\<rparr>) = Inr (h2, s2)"
      by (elim pass1_loop_InrE) blast
    then have False
      using pos unfolding s' by (simp add: pass1_step_def peek_def pass1_init_def)
    then show ?thesis ..
  qed
qed


lemma size_t_bound:
  assumes "n \<le> unat (w :: 64 word)"
  shows "int n < 2 ^ 64"
proof -
  have "uint w < 2 ^ 64"
    using uint_lt2p [of w] by (simp only: len_of_numeral_defs) simp
  then have "int (unat w) < 2 ^ 64" by (simp only: uint_nat)
  with assms show ?thesis by linarith
qed

lemma pass2_after_pass1:
  assumes wf: "wf_table states"
    and chk: "check_tape initial_tape 0 = Inr n"
    and p1: "pass1_loop states max_tape_len max_steps (pass1_init initial_tape n) = Inr sf"
  shows "\<exists>s2 s2f.
        pass2_init initial_tape sf = Inr s2
      \<and> pass2_loop states s2 = Some (Inr s2f)
      \<and> tape_ix s2 = - min_rel_tape_ix sf
      \<and> tape_ix s2f - tape_ix s2 = rel_tape_ix sf
      \<and> curr_state s2f = curr_state sf
      \<and> take (nat (max_rel_tape_ix sf - min_rel_tape_ix sf + 1)) (tape s2f)
          = take (nat (max_rel_tape_ix sf - min_rel_tape_ix sf + 1))
              (drop (nat (tape_ix sf - rel_tape_ix sf + min_rel_tape_ix sf)) (tape sf))
      \<and> (\<forall>r. cell_at sf r =
            (if min_rel_tape_ix sf \<le> r \<and> r \<le> max_rel_tape_ix sf
             then tape s2f ! nat (r - min_rel_tape_ix sf) else CHR '' ''))"
proof (cases "initial_tape = []")
  case True
  with chk have n: "n = 0" by simp
  define ch where "ch = bit_char (value_to_write (action1 (states ! 0)))"
  from pass1_loop_empty_tape [OF p1 [unfolded True n]]
  have ne: "states \<noteq> []" and d: "direction_to_move (action1 (states ! 0)) = 0"
    and sf: "sf = (pass1_init [] 0)\<lparr>step := 1, tape := [ch]\<rparr>"
    by (simp_all add: ch_def)
  let ?s2 = "sf\<lparr>tape := [NUL], tape_ix := 0, step := 0, curr_state := 0\<rparr>"
  let ?s2f = "sf\<lparr>tape := [ch], tape_ix := 0, step := 1, curr_state := 0\<rparr>"
  have i2: "pass2_init initial_tape sf = Inr ?s2"
    unfolding True sf
    by (simp add: pass2_init_def pass1_init_def to_size_t_def calloc_def write_block_def
          poke_def Let_def)
  have st: "pass2_step states (?s2\<lparr>step := step ?s2 + 1\<rparr>) = Inr (True, ?s2f)"
    using ne d
    by (simp add: pass2_step_def peek_def poke_def fetch_state_def select_action_def NUL_def
          Let_def ch_def)
  have l2: "pass2_loop states ?s2 = Some (Inr ?s2f)"
    using st by (subst pass2_loop.simps) simp
  show ?thesis
    using i2 l2
    by (rule_tac x = ?s2 in exI, rule_tac x = ?s2f in exI)
       (auto simp: sf pass1_init_def cell_at_def Let_def)
next
  case False
  let ?i = "pass1_init initial_tape n"
  let ?mn = "min_rel_tape_ix sf"
  let ?mx = "max_rel_tape_ix sf"
  define W where "W = nat (?mx - ?mn + 1)"
  define off where "off = tape_ix sf - rel_tape_ix sf + ?mn"
  from check_tape_Inr [OF chk] have n: "n = length initial_tape" by simp
  have inv: "pass1_inv ?i" by (rule pass1_init_inv [OF chk False])
  have cs: "curr_state ?i < length states" using wf by (simp add: pass1_init_def wf_table_def)
  from pass1_loop_final [OF p1 wf inv cs]
  have invf: "pass1_inv sf" and mn0: "?mn \<le> 0" and mxn: "int n - 1 \<le> ?mx"
    and tl: "tape_len sf \<le> unat max_tape_len"
    by (simp_all add: pass1_init_def)
  have box: "0 \<le> off" "off + (?mx - ?mn) < int (tape_len sf)" "?mn \<le> ?mx"
    and lenf: "length (tape sf) = Suc (tape_len sf)"
    using invf by (auto simp: pass1_inv_def off_def)
  have "int (tape_len sf) < 2 ^ 64" by (rule size_t_bound [OF tl])
  then have small: "?mx - ?mn + 1 < 2 ^ 64" using box by linarith
  from pass2_init_window [OF n mn0 mxn small] obtain s2 where
    i2: "pass2_init initial_tape sf = Inr s2" and w0: "same_window ?mn ?mx ?i s2" by blast
  from pass2_follows [OF p1 wf inv cs w0 order_refl order_refl] obtain s2f where
    l2: "pass2_loop states s2 = Some (Inr s2f)" and wf2: "same_window ?mn ?mx sf s2f" by blast
  have ix2: "tape_ix s2 = - ?mn" using w0 by (simp add: same_window_def pass1_init_def)
  have ixf: "tape_ix s2f = rel_tape_ix sf - ?mn" and csf: "curr_state s2f = curr_state sf"
    and len2: "length (tape s2f) = Suc W"
    and cells: "\<And>r. ?mn \<le> r \<Longrightarrow> r \<le> ?mx \<Longrightarrow> tape s2f ! nat (r - ?mn) = cell_at sf r"
    using wf2 by (auto simp: same_window_def W_def)
  have inside: "cell_at sf (?mn + int k) = tape sf ! (nat off + k)" if "k < W" for k
  proof -
    have e: "tape_ix sf - rel_tape_ix sf + (?mn + int k) = off + int k" by (simp add: off_def)
    have "0 \<le> off + int k" "off + int k < int (tape_len sf)"
      using box that by (auto simp: W_def)
    moreover have "nat (off + int k) = nat off + k" using box by (simp add: nat_add_distrib)
    ultimately show ?thesis unfolding cell_at_def Let_def e by simp
  qed
  have slice: "take W (tape s2f) = take W (drop (nat off) (tape sf))"
  proof (rule nth_equalityI)
    have "nat off + W \<le> length (tape sf)" using box lenf by (simp add: W_def)
    then show "length (take W (tape s2f)) = length (take W (drop (nat off) (tape sf)))"
      using len2 by simp
  next
    fix k assume "k < length (take W (tape s2f))"
    then have k: "k < W" by simp
    have "tape s2f ! k = cell_at sf (?mn + int k)"
      using cells [of "?mn + int k"] k by (simp add: W_def)
    then show "take W (tape s2f) ! k = take W (drop (nat off) (tape sf)) ! k"
      using k inside [OF k] box lenf by (simp add: W_def)
  qed
  have init_out: "\<forall>r. r < min_rel_tape_ix ?i \<or> max_rel_tape_ix ?i < r \<longrightarrow> cell_at ?i r = CHR '' ''"
    unfolding n by (simp add: cell_at_init) (simp add: pass1_init_def)
  from pass1_loop_blank_outside [OF p1 wf inv cs init_out]
  have outside: "\<And>r. r < ?mn \<or> ?mx < r \<Longrightarrow> cell_at sf r = CHR '' ''" by blast
  have whole: "\<forall>r. cell_at sf r =
      (if ?mn \<le> r \<and> r \<le> ?mx then tape s2f ! nat (r - ?mn) else CHR '' '')"
    using cells outside by auto
  show ?thesis
    using i2 l2 ix2 ixf csf slice whole unfolding W_def off_def
    by (rule_tac x = s2 in exI, rule_tac x = s2f in exI) simp
qed


section \<open>Properties of the execution engine\<close>

text \<open>
  Claim C5. Let the table come from \<open>parse_tm\<close> and the initial tape consist of 0s and
  1s. Whenever the first execution halts within the step and tape limits, the second
  execution can be set up and halts too (so \<^verbatim>\<open>run\<close> returns at any non-zero verbosity),
  in the same state of the table. Its head starts \<open>- min_rel_tape_ix\<close> cells into its
  buffer and ends displaced from there by the relative head position of the first
  execution; its buffer is the stretch of the first execution's final buffer between the
  least and the greatest cell visited; and the first execution's tape holds only blanks
  outside this stretch. Both executions are functions of the table and the initial tape.
\<close>

theorem pass2_reproduces_pass1:
  assumes tm: "parse_tm tm = Inr states"
    and chk: "check_tape initial_tape 0 = Inr n"
    and p1: "pass1_loop states max_tape_len max_steps (pass1_init initial_tape n) = Inr sf"
  shows "\<exists>s2 s2f.
        pass2_init initial_tape sf = Inr s2
      \<and> pass2_loop states s2 = Some (Inr s2f)
      \<and> (verbosity \<noteq> 0 \<longrightarrow>
            run states initial_tape max_tape_len max_steps verbosity = Some (Inr (Traced s2f)))
      \<and> tape_ix s2 = - min_rel_tape_ix sf
      \<and> tape_ix s2f - tape_ix s2 = rel_tape_ix sf
      \<and> curr_state s2f = curr_state sf
      \<and> take (nat (max_rel_tape_ix sf - min_rel_tape_ix sf + 1)) (tape s2f)
          = take (nat (max_rel_tape_ix sf - min_rel_tape_ix sf + 1))
              (drop (nat (tape_ix sf - rel_tape_ix sf + min_rel_tape_ix sf)) (tape sf))
      \<and> (\<forall>r. cell_at sf r =
            (if min_rel_tape_ix sf \<le> r \<and> r \<le> max_rel_tape_ix sf
             then tape s2f ! nat (r - min_rel_tape_ix sf) else CHR '' ''))"
proof -
  from pass2_after_pass1 [OF parse_tm_wf [OF tm] chk p1] obtain s2 s2f where
    i2: "pass2_init initial_tape sf = Inr s2" and l2: "pass2_loop states s2 = Some (Inr s2f)"
    and rest: "tape_ix s2 = - min_rel_tape_ix sf
      \<and> tape_ix s2f - tape_ix s2 = rel_tape_ix sf
      \<and> curr_state s2f = curr_state sf
      \<and> take (nat (max_rel_tape_ix sf - min_rel_tape_ix sf + 1)) (tape s2f)
          = take (nat (max_rel_tape_ix sf - min_rel_tape_ix sf + 1))
              (drop (nat (tape_ix sf - rel_tape_ix sf + min_rel_tape_ix sf)) (tape sf))
      \<and> (\<forall>r. cell_at sf r =
            (if min_rel_tape_ix sf \<le> r \<and> r \<le> max_rel_tape_ix sf
             then tape s2f ! nat (r - min_rel_tape_ix sf) else CHR '' ''))"
    by blast
  have "run states initial_tape max_tape_len max_steps verbosity = Some (Inr (Traced s2f))"
    if "verbosity \<noteq> 0"
    using that chk p1 i2 l2 by (simp add: run_def)
  with i2 l2 rest show ?thesis by blast
qed

theorem pass2_reproduces_pass1_witness:
  "parse_tm ''100111011110'' = Inr left_then_stop
 \<and> check_tape ''1'' 0 = Inr 1
 \<and> pass1_loop left_then_stop 2000 100 (pass1_init ''1'' 1)
     = Inr \<lparr>tape = replicate 1023 CHR '' '' @ ''00'' @ [NUL], tape_len = 1025,
            tape_expansion_amt = 2048, curr_state = 1, tape_ix = 1023, rel_tape_ix = - 1,
            min_rel_tape_ix = - 1, max_rel_tape_ix = 0, step = 2\<rparr>
 \<and> (\<exists>s2 s2f.
        pass2_init ''1''
          \<lparr>tape = replicate 1023 CHR '' '' @ ''00'' @ [NUL], tape_len = 1025,
            tape_expansion_amt = 2048, curr_state = 1, tape_ix = 1023, rel_tape_ix = - 1,
            min_rel_tape_ix = - 1, max_rel_tape_ix = 0, step = 2\<rparr> = Inr s2
      \<and> pass2_loop left_then_stop s2 = Some (Inr s2f)
      \<and> tape_ix s2 = 1 \<and> tape_ix s2f - tape_ix s2 = - 1 \<and> take 2 (tape s2f) = ''00'')"
proof -
  let ?sf = "\<lparr>tape = replicate 1023 CHR '' '' @ ''00'' @ [NUL], tape_len = 1025,
            tape_expansion_amt = 2048, curr_state = 1, tape_ix = 1023, rel_tape_ix = - 1,
            min_rel_tape_ix = - 1, max_rel_tape_ix = 0, step = 2\<rparr>"
  have p: "parse_tm ''100111011110'' = Inr left_then_stop" by code_simp
  have c: "check_tape ''1'' 0 = Inr 1" by simp
  have l: "pass1_loop left_then_stop 2000 100 (pass1_init ''1'' 1) = Inr ?sf" by code_simp
  have d: "drop 1022 (replicate 1023 CHR '' '' @ ''00'' @ [NUL]) = '' 00'' @ [NUL]"
    by code_simp
  from pass2_reproduces_pass1 [OF p c l, of 1] obtain s2 s2f where
    "pass2_init ''1'' ?sf = Inr s2" "pass2_loop left_then_stop s2 = Some (Inr s2f)"
    "tape_ix s2 = - min_rel_tape_ix ?sf" "tape_ix s2f - tape_ix s2 = rel_tape_ix ?sf"
    "take (nat (max_rel_tape_ix ?sf - min_rel_tape_ix ?sf + 1)) (tape s2f)
          = take (nat (max_rel_tape_ix ?sf - min_rel_tape_ix ?sf + 1))
              (drop (nat (tape_ix ?sf - rel_tape_ix ?sf + min_rel_tape_ix ?sf)) (tape ?sf))"
    by blast
  then have "pass2_init ''1'' ?sf = Inr s2 \<and> pass2_loop left_then_stop s2 = Some (Inr s2f)
      \<and> tape_ix s2 = 1 \<and> tape_ix s2f - tape_ix s2 = - 1 \<and> take 2 (tape s2f) = ''00''"
    by (simp add: d)
  then show ?thesis using p c l by blast
qed






lemma scan_blank_props:
  assumes "- 1 \<le> k"
  shows "- 1 \<le> scan_blank buf k \<and> scan_blank buf k \<le> k
       \<and> (\<forall>j. scan_blank buf k < j \<and> j \<le> k \<longrightarrow> buf ! nat j \<noteq> CHR '' '')
       \<and> (scan_blank buf k = - 1 \<or> buf ! nat (scan_blank buf k) = CHR '' '')"
  using assms
proof (induction buf k rule: scan_blank.induct)
  case (1 buf k)
  show ?case
  proof (cases "k < 0")
    case True
    with "1.prems" have k: "k = - 1" by simp
    have "scan_blank buf k = k" using True by (subst scan_blank.simps) simp
    then show ?thesis using k by auto
  next
    case nneg: False
    show ?thesis
    proof (cases "buf ! nat k \<noteq> CHR '' ''")
      case True
      have eq: "scan_blank buf k = scan_blank buf (k - 1)"
        using nneg True by (subst scan_blank.simps) simp
      from "1.IH" [OF nneg True] nneg
      have ih: "- 1 \<le> scan_blank buf (k - 1)" "scan_blank buf (k - 1) \<le> k - 1"
        "\<And>j. scan_blank buf (k - 1) < j \<Longrightarrow> j \<le> k - 1 \<Longrightarrow> buf ! nat j \<noteq> CHR '' ''"
        "scan_blank buf (k - 1) = - 1 \<or> buf ! nat (scan_blank buf (k - 1)) = CHR '' ''"
        by auto
      have "buf ! nat j \<noteq> CHR '' ''" if "scan_blank buf (k - 1) < j" "j \<le> k" for j
      proof (cases "j = k")
        case True
        then show ?thesis using \<open>buf ! nat k \<noteq> CHR '' ''\<close> by simp
      next
        case False
        with that have "j \<le> k - 1" by simp
        with ih(3) that(1) show ?thesis by blast
      qed
      with ih show ?thesis unfolding eq by auto
    next
      case False
      have "scan_blank buf k = k" using nneg False by (subst scan_blank.simps) simp
      then show ?thesis using nneg False by auto
    qed
  qed
qed

lemma pass1_loop_head_written:
  assumes "pass1_loop states max_tape_len max_steps s = Inr sf" and wf: "wf_table states"
    and "pass1_inv s" and "curr_state s < length states"
  shows "tape sf ! nat (tape_ix sf) \<noteq> CHR '' ''"
  using assms(1,3,4)
proof (induction rule: pass1_loop_induct_Inr)
  case (iterate s h s')
  let ?s = "s\<lparr>step := step s + 1\<rparr>"
  define a where "a = select_action (states ! curr_state ?s) (cell_at ?s (rel_tape_ix ?s))"
  have inv: "pass1_inv ?s" and cs: "curr_state ?s < length states"
    using iterate.prems by simp_all
  from pass1_step_effect [OF inv wf cs a_def] iterate(4)
  have h: "h = (direction_to_move a = 0)"
    and cells: "cell_at s' = (cell_at s)(rel_tape_ix s := bit_char (value_to_write a))"
    and rel: "rel_tape_ix s' = rel_tape_ix s + direction_to_move a"
    and inv': "pass1_inv s'" and cs': "curr_state s' < length states"
    by auto
  show ?case
  proof (cases h)
    case True
    then have "cell_at s' (rel_tape_ix s') = bit_char (value_to_write a)"
      using h cells rel by simp
    then have "tape s' ! nat (tape_ix s') = bit_char (value_to_write a)"
      using cell_at_head [OF inv'] by simp
    then show ?thesis using iterate(5) [OF True] by (simp add: bit_char_def)
  next
    case False
    from iterate(7) [OF False inv' cs'] show ?thesis .
  qed
qed

lemma output_line_segment:
  assumes inv: "pass1_inv sf" and hd: "tape sf ! nat (tape_ix sf) \<noteq> CHR '' ''"
  shows "\<exists>lo. output_line sf = Inr (take (nat (tape_ix sf) + 1 - lo) (drop lo (tape sf)))
            \<and> lo \<le> nat (tape_ix sf)
            \<and> (\<forall>k. lo \<le> k \<and> k \<le> nat (tape_ix sf) \<longrightarrow> tape sf ! k \<noteq> CHR '' '')
            \<and> (lo = 0 \<or> tape sf ! (lo - 1) = CHR '' '')"
proof -
  define ix where "ix = nat (tape_ix sf)"
  define len where "len = tape_len sf"
  define tp where "tp = tape sf"
  define t1 where "t1 = tp[Suc ix := NUL]"
  have ixi: "tape_ix sf = int ix" and ixl: "ix < len" and ll: "length tp = Suc len"
    and nn: "NUL \<notin> set (take len tp)"
    using inv by (auto simp: pass1_inv_def ix_def len_def tp_def)
  have pk: "poke (tape sf) (tape_ix sf + 1) NUL = Inr t1"
    using ixi ixl ll by (simp add: poke_def t1_def tp_def [symmetric] nat_add_distrib)
  define r where "r = scan_blank t1 (int ix)"
  from scan_blank_props [of "int ix" t1]
  have r: "- 1 \<le> r" "r \<le> int ix"
    and nb: "\<And>j. r < j \<Longrightarrow> j \<le> int ix \<Longrightarrow> t1 ! nat j \<noteq> CHR '' ''"
    and rb: "r = - 1 \<or> t1 ! nat r = CHR '' ''"
    by (auto simp: r_def)
  have same: "t1 ! j = tp ! j" if "j \<le> ix" for j
    using that by (simp add: t1_def)
  have "t1 ! ix \<noteq> CHR '' ''" using hd same [of ix] by (simp add: ix_def tp_def)
  with rb r have rlt: "r < int ix" by (cases "r = int ix") auto
  define lo where "lo = nat (r + 1)"
  have lo: "lo \<le> ix" "int lo = r + 1" using r rlt by (auto simp: lo_def)
  have t1_split: "t1 = take (Suc ix) tp @ NUL # drop (Suc (Suc ix)) tp"
    unfolding t1_def using ixl ll by (simp add: upd_conv_take_nth_drop)
  have d: "drop lo t1 = drop lo (take (Suc ix) tp) @ NUL # drop (Suc (Suc ix)) tp"
    unfolding t1_split using lo(1) ll ixl by simp
  have "set (drop lo (take (Suc ix) tp)) \<subseteq> set (take len tp)"
    using ixl by (meson set_drop_subset set_take_subset_set_take Suc_leI subset_trans)
  then have "\<forall>c\<in>set (drop lo (take (Suc ix) tp)). c \<noteq> NUL" using nn by auto
  then have tw: "takeWhile (\<lambda>c. c \<noteq> NUL) (drop lo t1) = drop lo (take (Suc ix) tp)"
    unfolding d by (simp add: takeWhile_tail)
  have "drop lo (take (Suc ix) tp) = take (ix + 1 - lo) (drop lo tp)"
    by (simp add: drop_take)
  with tw pk have out: "output_line sf = Inr (take (ix + 1 - lo) (drop lo tp))"
    by (simp add: output_line_def ixi r_def [symmetric] lo_def [symmetric])
  have c2: "tp ! k \<noteq> CHR '' ''" if "lo \<le> k" "k \<le> ix" for k
    using nb [of "int k"] that lo(2) same [OF that(2)] by simp
  have c3: "lo = 0 \<or> tp ! (lo - 1) = CHR '' ''"
  proof (cases "r = - 1")
    case True
    then show ?thesis by (simp add: lo_def)
  next
    case False
    with rb r have "t1 ! nat r = CHR '' ''" "nat r = lo - 1" "nat r \<le> ix"
      using lo by auto
    then show ?thesis using same [of "nat r"] by simp
  qed
  show ?thesis
    using out lo(1) c2 c3 unfolding ix_def tp_def by blast
qed


text \<open>
  Claim C3, as stated, makes the printed line the maximal run of non-blank cells around
  the final head position. The table \<open>stop_on_one\<close> on the tape \<^verbatim>\<open>10\<close> halts at once with the
  tape \<^verbatim>\<open>00\<close> and the head on its first cell; the line printed is \<^verbatim>\<open>0\<close>, without the cell
  to the right of the head.
\<close>

theorem printed_line_counterexample:
  "parse_tm ''11110110'' = Inr stop_on_one
 \<and> pass1_loop stop_on_one 100 100 (pass1_init ''10'' 2)
     = Inr \<lparr>tape = ''00'' @ [NUL], tape_len = 2, tape_expansion_amt = 1024, curr_state = 0,
            tape_ix = 0, rel_tape_ix = 0, min_rel_tape_ix = 0, max_rel_tape_ix = 1, step = 1\<rparr>
 \<and> run stop_on_one ''10'' 100 100 0 = Some (Inr (Printed ''0''))"
  by code_simp

text \<open>
  Claim C3, amended. For every halting run at verbosity 0 on a non-empty initial tape,
  the line printed is the stretch of the final tape from a cell \<open>lo\<close> up to and including
  the cell under the head: no cell of the stretch is blank, and \<open>lo\<close> is the first cell of
  the buffer or the cell to its left is blank. The tape to the right of the head is cut
  off by \<^verbatim>\<open>tape[tape_ix + 1] = '\0'\<close> and is not printed.
\<close>

theorem printed_line:
  assumes tm: "parse_tm tm = Inr states"
    and chk: "check_tape initial_tape 0 = Inr n" and ne: "initial_tape \<noteq> []"
    and p1: "pass1_loop states max_tape_len max_steps (pass1_init initial_tape n) = Inr sf"
  shows "\<exists>lo. run states initial_tape max_tape_len max_steps 0
               = Some (Inr (Printed (take (nat (tape_ix sf) + 1 - lo) (drop lo (tape sf)))))
            \<and> lo \<le> nat (tape_ix sf) \<and> nat (tape_ix sf) < tape_len sf
            \<and> (\<forall>k. lo \<le> k \<and> k \<le> nat (tape_ix sf) \<longrightarrow> tape sf ! k \<noteq> CHR '' '')
            \<and> (lo = 0 \<or> tape sf ! (lo - 1) = CHR '' '')"
proof -
  note wf = parse_tm_wf [OF tm]
  have inv: "pass1_inv (pass1_init initial_tape n)" by (rule pass1_init_inv [OF chk ne])
  have cs: "curr_state (pass1_init initial_tape n) < length states"
    using wf by (simp add: pass1_init_def wf_table_def)
  from pass1_loop_final [OF p1 wf inv cs] have invf: "pass1_inv sf" by simp
  note hd = pass1_loop_head_written [OF p1 wf inv cs]
  from output_line_segment [OF invf hd] obtain lo where
    out: "output_line sf = Inr (take (nat (tape_ix sf) + 1 - lo) (drop lo (tape sf)))"
    and rest: "lo \<le> nat (tape_ix sf)"
      "\<forall>k. lo \<le> k \<and> k \<le> nat (tape_ix sf) \<longrightarrow> tape sf ! k \<noteq> CHR '' ''"
      "lo = 0 \<or> tape sf ! (lo - 1) = CHR '' ''"
    by blast
  have "run states initial_tape max_tape_len max_steps 0
          = Some (Inr (Printed (take (nat (tape_ix sf) + 1 - lo) (drop lo (tape sf)))))"
    using chk p1 out by (simp add: run_def)
  moreover have "nat (tape_ix sf) < tape_len sf" using invf by (auto simp: pass1_inv_def)
  ultimately show ?thesis using rest by blast
qed

theorem printed_line_witness:
  "parse_tm ''11110110'' = Inr stop_on_one
 \<and> check_tape ''0010'' 0 = Inr 4
 \<and> pass1_loop stop_on_one 100 100 (pass1_init ''0010'' 4)
     = Inr \<lparr>tape = ''0000'' @ [NUL], tape_len = 4, tape_expansion_amt = 1024, curr_state = 0,
            tape_ix = 2, rel_tape_ix = 2, min_rel_tape_ix = 0, max_rel_tape_ix = 3, step = 3\<rparr>
 \<and> (\<exists>lo. run stop_on_one ''0010'' 100 100 0
             = Some (Inr (Printed (take (3 - lo) (drop lo (''0000'' @ [NUL])))))
        \<and> lo \<le> 2)
 \<and> run stop_on_one ''0010'' 100 100 0 = Some (Inr (Printed ''000''))"
proof -
  let ?sf = "\<lparr>tape = ''0000'' @ [NUL], tape_len = 4, tape_expansion_amt = 1024, curr_state = 0,
            tape_ix = 2, rel_tape_ix = 2, min_rel_tape_ix = 0, max_rel_tape_ix = 3, step = 3\<rparr>"
  have p: "parse_tm ''11110110'' = Inr stop_on_one" by code_simp
  have c: "check_tape ''0010'' 0 = Inr 4" by simp
  have ne: "''0010'' \<noteq> []" by simp
  have l: "pass1_loop stop_on_one 100 100 (pass1_init ''0010'' 4) = Inr ?sf" by code_simp
  have r: "run stop_on_one ''0010'' 100 100 0 = Some (Inr (Printed ''000''))" by code_simp
  from printed_line [OF p c ne l] obtain lo where
    "run stop_on_one ''0010'' 100 100 0
       = Some (Inr (Printed (take (nat (tape_ix ?sf) + 1 - lo) (drop lo (tape ?sf)))))"
    "lo \<le> nat (tape_ix ?sf)"
    by blast
  then have "run stop_on_one ''0010'' 100 100 0
             = Some (Inr (Printed (take (3 - lo) (drop lo (''0000'' @ [NUL])))))
        \<and> lo \<le> 2"
    by simp
  then have "\<exists>lo. run stop_on_one ''0010'' 100 100 0
             = Some (Inr (Printed (take (3 - lo) (drop lo (''0000'' @ [NUL])))))
        \<and> lo \<le> 2" ..
  then show ?thesis using p c l r by blast
qed

text \<open>
  Claim C6, as stated, lets every machine that does not halt within one step fail with
  \<open>StepLimitExceeded\<close> when \<^verbatim>\<open>max_steps\<close> is 1. The table of the empty specification never
  halts; on the tape \<^verbatim>\<open>00\<close> with \<^verbatim>\<open>max_tape_len = 1\<close> the run fails in its first turn with
  \<open>TapeLimitExceeded\<close>.
\<close>

theorem limits_counterexample:
  "parse_tm [] =
     Inr [\<lparr>number = 0,
           action0 = \<lparr>value_to_write = 0, direction_to_move = 1, next_state = 0\<rparr>,
           action1 = \<lparr>value_to_write = 0, direction_to_move = 1, next_state = 0\<rparr>\<rparr>]
 \<and> run [\<lparr>number = 0,
           action0 = \<lparr>value_to_write = 0, direction_to_move = 1, next_state = 0\<rparr>,
           action1 = \<lparr>value_to_write = 0, direction_to_move = 1, next_state = 0\<rparr>\<rparr>]
        ''00'' 1 1 0
     = Some (Inl (TapeLimitExceeded 1))"
  by code_simp

text \<open>
  Claim C6, amended. At the head of each turn of the first loop, the run fails with
  \<open>StepLimitExceeded\<close> if \<^verbatim>\<open>step\<close> equals \<^verbatim>\<open>max_steps\<close>; otherwise it fails with
  \<open>TapeLimitExceeded\<close> if \<^verbatim>\<open>tape_len\<close> exceeds \<^verbatim>\<open>max_tape_len\<close>. With \<^verbatim>\<open>max_steps = 1\<close>, a
  decoded table, and a non-empty initial tape that is not longer than \<^verbatim>\<open>max_tape_len\<close>,
  every machine whose first action does not stop fails with \<open>StepLimitExceeded 1\<close>, at any
  verbosity.
\<close>

theorem limits_checked_before_each_step:
  "(step s = max_steps \<longrightarrow>
      pass1_loop states max_tape_len max_steps s = Inl (StepLimitExceeded (unat max_steps)))
 \<and> (step s \<noteq> max_steps \<and> unat max_tape_len < tape_len s \<longrightarrow>
      pass1_loop states max_tape_len max_steps s = Inl (TapeLimitExceeded (unat max_tape_len)))
 \<and> (parse_tm tm = Inr states \<and> check_tape initial_tape 0 = Inr n \<and> initial_tape \<noteq> []
      \<and> n \<le> unat max_tape_len
      \<and> direction_to_move (select_action (states ! 0) (hd initial_tape)) \<noteq> 0 \<longrightarrow>
      run states initial_tape max_tape_len 1 verbosity = Some (Inl (StepLimitExceeded 1)))"
proof (intro conjI impI)
  assume "step s = max_steps"
  then show "pass1_loop states max_tape_len max_steps s = Inl (StepLimitExceeded (unat max_steps))"
    by (subst pass1_loop.simps) simp
next
  assume "step s \<noteq> max_steps \<and> unat max_tape_len < tape_len s"
  then show "pass1_loop states max_tape_len max_steps s
               = Inl (TapeLimitExceeded (unat max_tape_len))"
    by (subst pass1_loop.simps) (simp add: Let_def)
next
  assume a: "parse_tm tm = Inr states \<and> check_tape initial_tape 0 = Inr n \<and> initial_tape \<noteq> []
      \<and> n \<le> unat max_tape_len
      \<and> direction_to_move (select_action (states ! 0) (hd initial_tape)) \<noteq> 0"
  let ?i = "pass1_init initial_tape n"
  let ?s = "?i\<lparr>step := step ?i + 1\<rparr>"
  define a where "a = select_action (states ! curr_state ?s) (cell_at ?s (rel_tape_ix ?s))"
  from a have tm: "parse_tm tm = Inr states" and chk: "check_tape initial_tape 0 = Inr n"
    and ne: "initial_tape \<noteq> []" and fits: "n \<le> unat max_tape_len" by simp_all
  note wf = parse_tm_wf [OF tm]
  from check_tape_Inr [OF chk] have n: "n = length initial_tape" by simp
  have inv: "pass1_inv ?s" using pass1_init_inv [OF chk ne] by simp
  have cs: "curr_state ?s < length states" using wf by (simp add: pass1_init_def wf_table_def)
  have "cell_at ?s (rel_tape_ix ?s) = hd initial_tape"
    using ne by (simp add: n cell_at_init) (simp add: pass1_init_def hd_conv_nth)
  then have d: "direction_to_move a \<noteq> 0" using a by (simp add: a_def pass1_init_def)
  from pass1_step_effect [OF inv wf cs a_def] d obtain s' where
    st: "pass1_step states ?s = Inr (False, s')" and s': "step s' = step ?s"
    by auto
  have s1: "step s' = 1" using s' by (simp add: pass1_init_def)
  have "pass1_loop states max_tape_len 1 ?i = pass1_loop states max_tape_len 1 s'"
    using st fits by (subst pass1_loop.simps) (simp add: Let_def pass1_init_def)
  also have "\<dots> = Inl (StepLimitExceeded 1)"
    using s1 by (subst pass1_loop.simps) simp
  finally show "run states initial_tape max_tape_len 1 verbosity = Some (Inl (StepLimitExceeded 1))"
    using chk by (simp add: run_def)
qed

theorem limits_checked_before_each_step_witness:
  "step (pass1_init ''0'' 1) = (0 :: 64 word)
 \<and> pass1_loop stop_on_one 5 0 (pass1_init ''0'' 1) = Inl (StepLimitExceeded 0)
 \<and> step (pass1_init ''00'' 2) \<noteq> 7 \<and> unat (1 :: 64 word) < tape_len (pass1_init ''00'' 2)
 \<and> pass1_loop stop_on_one 1 7 (pass1_init ''00'' 2) = Inl (TapeLimitExceeded 1)
 \<and> parse_tm ''11110110'' = Inr stop_on_one \<and> check_tape ''01'' 0 = Inr 2
 \<and> 2 \<le> unat (9 :: 64 word)
 \<and> direction_to_move (select_action (stop_on_one ! 0) (hd ''01'')) \<noteq> 0
 \<and> run stop_on_one ''01'' 9 1 0 = Some (Inl (StepLimitExceeded 1))"
proof -
  have h1: "step (pass1_init ''0'' 1) = (0 :: 64 word)" by (simp add: pass1_init_def)
  have h2: "step (pass1_init ''00'' 2) \<noteq> 7 \<and> unat (1 :: 64 word) < tape_len (pass1_init ''00'' 2)"
    by (simp add: pass1_init_def)
  have p: "parse_tm ''11110110'' = Inr stop_on_one" by code_simp
  have h3: "parse_tm ''11110110'' = Inr stop_on_one \<and> check_tape ''01'' 0 = Inr 2 \<and> ''01'' \<noteq> []
      \<and> 2 \<le> unat (9 :: 64 word)
      \<and> direction_to_move (select_action (stop_on_one ! 0) (hd ''01'')) \<noteq> 0"
    using p by (simp add: stop_on_one_def select_action_def)
  note t1 = limits_checked_before_each_step
    [where s = "pass1_init ''0'' 1" and max_steps = 0 and states = stop_on_one
       and max_tape_len = 5, THEN conjunct1, THEN mp, OF h1]
  note t2 = limits_checked_before_each_step
    [where s = "pass1_init ''00'' 2" and max_steps = 7 and states = stop_on_one
       and max_tape_len = 1, THEN conjunct2, THEN conjunct1, THEN mp, OF h2]
  note t3 = limits_checked_before_each_step
    [where tm = "''11110110''" and states = stop_on_one and initial_tape = "''01''" and n = 2
       and max_tape_len = 9 and verbosity = 0, THEN conjunct2, THEN conjunct2, THEN mp, OF h3]
  show ?thesis using h1 h2 h3 t1 t2 t3 by simp
qed

text \<open>
  Claim C8. The buffer window contains every cell the head visits, and a read outside
  the window made so far yields a blank, which selects \<^verbatim>\<open>action0\<close>; also for the empty
  initial tape. For a non-empty initial tape this holds: \<open>pass1_inv\<close> is kept by every
  turn of the loop and the cells added are blank (lemma \<open>pass1_step_effect\<close>). For the
  empty tape \<^verbatim>\<open>tape_len\<close> is 0, so the head at index 0 is outside the window; the byte
  read there is the terminator, which is neither \<^verbatim>\<open>'0'\<close> nor a blank and selects
  \<^verbatim>\<open>action1\<close>: with the table \<open>stop_on_one\<close> the run stops in its first step instead of
  moving right.
\<close>

theorem empty_tape_reads_terminator:
  "check_tape [] 0 = Inr 0
 \<and> tape_len (pass1_init [] 0) = 0 \<and> tape_ix (pass1_init [] 0) = 0
 \<and> peek (tape (pass1_init [] 0)) (tape_ix (pass1_init [] 0)) = Inr NUL
 \<and> select_action (stop_on_one ! 0) NUL = action1 (stop_on_one ! 0)
 \<and> action0 (stop_on_one ! 0) = \<lparr>value_to_write = 0, direction_to_move = 1, next_state = 0\<rparr>
 \<and> action1 (stop_on_one ! 0) = \<lparr>value_to_write = 0, direction_to_move = 0, next_state = 0\<rparr>
 \<and> pass1_loop stop_on_one 100 100 (pass1_init [] 0)
     = Inr \<lparr>tape = ''0'', tape_len = 0, tape_expansion_amt = 1024, curr_state = 0,
            tape_ix = 0, rel_tape_ix = 0, min_rel_tape_ix = 0, max_rel_tape_ix = - 1, step = 1\<rparr>"
  by code_simp


end
